theory Spec2Isabelle
  imports Complex_Main
begin

section \<open>The geometry worker \<^verbatim>\<open>FractalGeometry.wasm.asc\<close>\<close>

text \<open>
  The worker is AssemblyScript: statically typed, with \<^verbatim>\<open>i32\<close> counters and \<^verbatim>\<open>f32\<close>
  coordinates. The embedding keeps its control flow, its array accesses and its order of
  random draws.

  \<^item> \<^verbatim>\<open>f32\<close> and \<^verbatim>\<open>f64\<close> values are modelled by \<open>real\<close>: arithmetic is exact; rounding
    and the non-finite values are outside the model (a division by zero gives \<open>inf\<close> or
    \<open>NaN\<close> in the worker and 0 in HOL). The concrete evaluations below use inputs on which
    every operation is exact in \<^verbatim>\<open>f32\<close> and no denominator is zero.
  \<^item> \<^verbatim>\<open>i32\<close> values are modelled by \<open>int\<close>. Settings whose floor does not fit an \<^verbatim>\<open>i32\<close>
    are outside the model, and so is the exhaustion of memory by an allocation. A buffer
    of the worker has fewer than \<open>2^30\<close> entries (linear memory is below 4 GiB), and the
    inner loops stop at the first index outside the buffer, so \<^verbatim>\<open>i * 2\<close> never wraps.
  \<^item> An access outside an \<^verbatim>\<open>Array\<close> or a \<^verbatim>\<open>Float32Array\<close> aborts the call: the runtime
    checks every index. So does an allocation with a negative length. Both are values of
    the type \<open>trap\<close>, and an aborted call leaves no result.
  \<^item> \<^verbatim>\<open>Math.random()\<close> is the sequence \<open>rnd\<close> of the values it returns during one call,
    read through a counter.
  \<^item> The global \<^verbatim>\<open>levelSettings\<close> is an argument of every function that reads it, and
    the global \<^verbatim>\<open>lastData\<close> is an argument and the result of \<^verbatim>\<open>build\<close>.
\<close>

datatype trap = IndexOutOfBounds | InvalidArrayLength | NullReference

type_synonym Float32Array = "real list"
type_synonym pool = "Float32Array option list"   \<comment> \<open>\<^verbatim>\<open>Array<Float32Array | null>\<close>\<close>
type_synonym settings = "nat \<Rightarrow> real"             \<comment> \<open>\<^verbatim>\<open>levelSettings\<close>, indices 0..16\<close>
type_synonym draws = "nat \<Rightarrow> real"

text \<open>A settings vector from the list of its leading entries; the rest stays at the
  \<^verbatim>\<open>fill(0.0)\<close> of the declaration.\<close>

definition mkSettings :: "real list \<Rightarrow> settings" where
  "mkSettings vs k = (if k < length vs then vs ! k else 0)"

subsection \<open>Wrappers and array accesses\<close>

text \<open>The worker applies \<^verbatim>\<open>isqrt\<close> to absolute values, to square roots and to a sum of two
  squares, and \<^verbatim>\<open>ilog\<close> to 2 plus a square root: never to a negative number.\<close>

definition isqrt :: "real \<Rightarrow> real" where
  "isqrt n = sqrt n"

definition iabs :: "real \<Rightarrow> real" where
  "iabs n = \<bar>n\<bar>"

definition ilog :: "real \<Rightarrow> real" where
  "ilog n = ln n"

definition ifloor :: "real \<Rightarrow> int" where
  "ifloor n = \<lfloor>n\<rfloor>"

text \<open>\<^verbatim>\<open>a / b\<close> on two \<^verbatim>\<open>i32\<close>: the quotient truncated towards zero.\<close>

definition i32_div :: "int \<Rightarrow> int \<Rightarrow> int" where
  "i32_div a b = sgn a * sgn b * (\<bar>a\<bar> div \<bar>b\<bar>)"

definition f32_get :: "Float32Array \<Rightarrow> int \<Rightarrow> trap + real" where
  "f32_get sets j = (if 0 \<le> j \<and> j < int (length sets) then Inr (sets ! nat j)
                     else Inl IndexOutOfBounds)"

definition f32_set :: "Float32Array \<Rightarrow> int \<Rightarrow> real \<Rightarrow> trap + Float32Array" where
  "f32_set sets j v = (if 0 \<le> j \<and> j < int (length sets) then Inr (sets[nat j := v])
                       else Inl IndexOutOfBounds)"

text \<open>\<^verbatim>\<open>reuse[s] as Float32Array\<close>: the bounds check of the array, then the cast.\<close>

definition pool_get :: "pool \<Rightarrow> int \<Rightarrow> trap + Float32Array" where
  "pool_get reuse s =
     (if 0 \<le> s \<and> s < int (length reuse)
      then (case reuse ! nat s of None \<Rightarrow> Inl NullReference | Some sets \<Rightarrow> Inr sets)
      else Inl IndexOutOfBounds)"

subsection \<open>The generation pass\<close>

record coefs =
  al :: real
  bl :: real
  cl :: real
  dl :: real
  el :: real
  choice :: real

record extrema =
  xMin :: real
  xMax :: real
  yMin :: real
  yMax :: real

text \<open>Lines 125 to 129: the running minimum and maximum of the current \<open>x\<close> and \<open>y\<close>.\<close>

definition track :: "extrema \<Rightarrow> real \<Rightarrow> real \<Rightarrow> extrema" where
  "track E x y =
     (let E1 = (if x < xMin E then E\<lparr>xMin := x\<rparr>
                else if x > xMax E then E\<lparr>xMax := x\<rparr> else E)
      in if y < yMin E1 then E1\<lparr>yMin := y\<rparr>
         else if y > yMax E1 then E1\<lparr>yMax := y\<rparr> else E1)"

text \<open>The loop-carried variables of the inner loop: \<open>x\<close>, \<open>y\<close>, the extrema and the
  buffer \<open>sets\<close> of the subset.\<close>

type_synonym gen_vars = "real \<times> real \<times> extrema \<times> Float32Array"

text \<open>Lines 115 to 136, the body of the inner loop at point counter \<open>i\<close>.\<close>

fun genPoint :: "coefs \<Rightarrow> int \<Rightarrow> gen_vars \<Rightarrow> trap + gen_vars" where
  "genPoint K i (x, y, E, sets) =
     (let z = (if choice K < 0.5 then dl K + isqrt (iabs (bl K * x - cl K))
               else if choice K < 0.75 then dl K + isqrt (isqrt (iabs (bl K * x - cl K)))
               else dl K + ilog (2 + isqrt (iabs (bl K * x - cl K))));
          x1 = (if x > 0 then y - z else if x = 0 then y else y + z);
          E' = track E x y;
          bid = i * 2;
          y' = al K - x;
          x' = x1 + el K
      in (case f32_set sets (bid + 1) y' of
            Inl e \<Rightarrow> Inl e
          | Inr sets1 \<Rightarrow>
              (case f32_set sets1 bid x' of
                 Inl e \<Rightarrow> Inl e
               | Inr sets2 \<Rightarrow> Inr (x', y', E', sets2))))"

declare genPoint.simps [simp del]

text \<open>\<^verbatim>\<open>for (i = 0; i < numPoints; i++)\<close>, entered at counter \<open>i\<close>.\<close>

function genPoints :: "coefs \<Rightarrow> int \<Rightarrow> int \<Rightarrow> gen_vars \<Rightarrow> trap + gen_vars" where
  "genPoints K numPoints i st =
     (if i < numPoints
      then (case genPoint K i st of
              Inl e \<Rightarrow> Inl e
            | Inr st' \<Rightarrow> genPoints K numPoints (i + 1) st')
      else Inr st)"
  by pat_completeness auto
termination
  by (relation "measure (\<lambda>(K, numPoints, i, st). nat (numPoints - i))") auto

declare genPoints.simps [simp del]

text \<open>Lines 109 and 110. The operands of \<^verbatim>\<open>s / 100\<close> are both \<^verbatim>\<open>i32\<close>, so the quotient is
  the integer one; it is then converted and multiplied in \<^verbatim>\<open>f64\<close>, and the product is cast
  to \<^verbatim>\<open>f32\<close>.\<close>

definition seed :: "int \<Rightarrow> real \<Rightarrow> real" where
  "seed s u = real_of_int (i32_div s 100) * (0.5 - u)"

text \<open>The variables of the outer loop: the extrema, the counter of the random draws and
  the pool.\<close>

type_synonym level_vars = "extrema \<times> nat \<times> pool"

text \<open>Lines 106 to 137, the body of the outer loop at subset counter \<open>s\<close>. The buffer is
  changed in place, so the pool holds the changed buffer afterwards.\<close>

fun genSubset :: "coefs \<Rightarrow> draws \<Rightarrow> int \<Rightarrow> int \<Rightarrow> level_vars \<Rightarrow> trap + level_vars" where
  "genSubset K rnd numPoints s (E, k, reuse) =
     (let x = seed s (rnd k);
          y = seed s (rnd (k + 1))
      in (case pool_get reuse s of
            Inl e \<Rightarrow> Inl e
          | Inr sets \<Rightarrow>
              (case genPoints K numPoints 0 (x, y, E, sets) of
                 Inl e \<Rightarrow> Inl e
               | Inr (x', y', E', sets') \<Rightarrow> Inr (E', k + 2, reuse[nat s := Some sets']))))"

declare genSubset.simps [simp del]

function genSubsets ::
  "coefs \<Rightarrow> draws \<Rightarrow> int \<Rightarrow> int \<Rightarrow> int \<Rightarrow> level_vars \<Rightarrow> trap + level_vars" where
  "genSubsets K rnd numSubsets numPoints s lv =
     (if s < numSubsets
      then (case genSubset K rnd numPoints s lv of
              Inl e \<Rightarrow> Inl e
            | Inr lv' \<Rightarrow> genSubsets K rnd numSubsets numPoints (s + 1) lv')
      else Inr lv)"
  by pat_completeness auto
termination
  by (relation "measure (\<lambda>(K, rnd, numSubsets, numPoints, s, lv). nat (numSubsets - s))") auto

declare genSubsets.simps [simp del]

text \<open>Lines 84 to 88: one coefficient from its range and one draw.\<close>

definition coef :: "real \<Rightarrow> real \<Rightarrow> real \<Rightarrow> real" where
  "coef lo hi u = lo + u * (hi - lo)"

text \<open>Lines 84 to 91: the five coefficients and \<open>choice\<close>, from the first six draws.\<close>

definition drawCoefs :: "settings \<Rightarrow> draws \<Rightarrow> coefs" where
  "drawCoefs levelSettings rnd =
     \<lparr>al = coef (levelSettings 7) (levelSettings 8) (rnd 0),
      bl = coef (levelSettings 9) (levelSettings 10) (rnd 1),
      cl = coef (levelSettings 11) (levelSettings 12) (rnd 2),
      dl = coef (levelSettings 13) (levelSettings 14) (rnd 3),
      el = coef (levelSettings 15) (levelSettings 16) (rnd 4),
      choice = rnd 5\<rparr>"

definition extrema0 :: extrema where
  "extrema0 = \<lparr>xMin = 0, xMax = 0, yMin = 0, yMax = 0\<rparr>"

text \<open>Lines 73 to 138: the first half of \<^verbatim>\<open>FractalGeometry\<close>.\<close>

definition generate :: "settings \<Rightarrow> draws \<Rightarrow> pool \<Rightarrow> trap + level_vars" where
  "generate levelSettings rnd reuse =
     (let numSubsets = ifloor (levelSettings 1);
          numPoints = ifloor (levelSettings 2)
      in genSubsets (drawCoefs levelSettings rnd) rnd numSubsets numPoints 0
           (extrema0, 6, reuse))"

subsection \<open>The normalisation pass\<close>

definition getPointDistance :: "real \<Rightarrow> real \<Rightarrow> real \<Rightarrow> real \<Rightarrow> real" where
  "getPointDistance x1 y1 x2 y2 =
     (let a = x1 - x2; b = y1 - y2 in isqrt (a * a + b * b))"

record norm =
  scaleFactor :: real
  iRadius :: real
  oRadius :: real
  nxMin :: real
  nyMin :: real
  scaleX :: real
  scaleY :: real

text \<open>Lines 160 to 169: the tunnel warp of one rescaled point.\<close>

fun warp :: "norm \<Rightarrow> real \<times> real \<Rightarrow> real \<times> real" where
  "warp N (x, y) =
     (if iRadius N > 0
      then (let dist = getPointDistance 0 0 x y / scaleFactor N
            in (if dist < iRadius N
                then (let scaling = dist / iRadius N;
                          outer = scaling / oRadius N
                      in (x / scaling + x * outer, y / scaling + y * outer))
                else (x, y)))
      else (x, y))"

declare warp.simps [simp del]

text \<open>Lines 152 to 172, the body of the inner loop of the second pass.\<close>

definition normPoint :: "norm \<Rightarrow> int \<Rightarrow> Float32Array \<Rightarrow> trap + Float32Array" where
  "normPoint N i sets =
     (let bid = i * 2
      in (case f32_get sets bid of
            Inl e \<Rightarrow> Inl e
          | Inr vx \<Rightarrow>
              (case f32_get sets (bid + 1) of
                 Inl e \<Rightarrow> Inl e
               | Inr vy \<Rightarrow>
                   (case warp N (scaleX N * (vx - nxMin N) - scaleFactor N,
                                 scaleY N * (vy - nyMin N) - scaleFactor N) of
                      (x, y) \<Rightarrow>
                        (case f32_set sets bid x of
                           Inl e \<Rightarrow> Inl e
                         | Inr sets1 \<Rightarrow> f32_set sets1 (bid + 1) y)))))"

function normPoints :: "norm \<Rightarrow> int \<Rightarrow> int \<Rightarrow> Float32Array \<Rightarrow> trap + Float32Array" where
  "normPoints N numPoints i sets =
     (if i < numPoints
      then (case normPoint N i sets of
              Inl e \<Rightarrow> Inl e
            | Inr sets' \<Rightarrow> normPoints N numPoints (i + 1) sets')
      else Inr sets)"
  by pat_completeness auto
termination
  by (relation "measure (\<lambda>(N, numPoints, i, sets). nat (numPoints - i))") auto

declare normPoints.simps [simp del]

definition normSubset :: "norm \<Rightarrow> int \<Rightarrow> int \<Rightarrow> pool \<Rightarrow> trap + pool" where
  "normSubset N numPoints s reuse =
     (case pool_get reuse s of
        Inl e \<Rightarrow> Inl e
      | Inr sets \<Rightarrow>
          (case normPoints N numPoints 0 sets of
             Inl e \<Rightarrow> Inl e
           | Inr sets' \<Rightarrow> Inr (reuse[nat s := Some sets'])))"

function normSubsets :: "norm \<Rightarrow> int \<Rightarrow> int \<Rightarrow> int \<Rightarrow> pool \<Rightarrow> trap + pool" where
  "normSubsets N numSubsets numPoints s reuse =
     (if s < numSubsets
      then (case normSubset N numPoints s reuse of
              Inl e \<Rightarrow> Inl e
            | Inr reuse' \<Rightarrow> normSubsets N numSubsets numPoints (s + 1) reuse')
      else Inr reuse)"
  by pat_completeness auto
termination
  by (relation "measure (\<lambda>(N, numSubsets, numPoints, s, reuse). nat (numSubsets - s))") auto

declare normSubsets.simps [simp del]

text \<open>Lines 75 to 80 and 141 to 142: what the second pass takes from the settings and
  from the extrema of the first.\<close>

definition mkNorm :: "settings \<Rightarrow> extrema \<Rightarrow> norm" where
  "mkNorm levelSettings E =
     \<lparr>scaleFactor = levelSettings 3,
      iRadius = levelSettings 5 / 100,
      oRadius = levelSettings 6 / 100,
      nxMin = xMin E,
      nyMin = yMin E,
      scaleX = 2 * levelSettings 3 / (xMax E - xMin E),
      scaleY = 2 * levelSettings 3 / (yMax E - yMin E)\<rparr>"

subsection \<open>\<^verbatim>\<open>FractalGeometry\<close>, \<^verbatim>\<open>myBuild\<close> and \<^verbatim>\<open>build\<close>\<close>

definition FractalGeometry :: "int \<Rightarrow> settings \<Rightarrow> draws \<Rightarrow> pool \<Rightarrow> trap + pool" where
  "FractalGeometry levelId levelSettings rnd reuse =
     (case generate levelSettings rnd reuse of
        Inl e \<Rightarrow> Inl e
      | Inr (E, k, reuse') \<Rightarrow>
          normSubsets (mkNorm levelSettings E)
            (ifloor (levelSettings 1)) (ifloor (levelSettings 2)) 0 reuse')"

text \<open>Lines 194 to 197: every slot of the new array gets a new buffer filled with 123.\<close>

function allocLoop :: "int \<Rightarrow> int \<Rightarrow> int \<Rightarrow> pool \<Rightarrow> trap + pool" where
  "allocLoop numSubsets numPoints2 i lastData =
     (if i < numSubsets
      then (if numPoints2 < 0 then Inl InvalidArrayLength
            else if 0 \<le> i \<and> i < int (length lastData)
            then allocLoop numSubsets numPoints2 (i + 1)
                   (lastData[nat i := Some (replicate (nat numPoints2) 123)])
            else Inl IndexOutOfBounds)
      else Inr lastData)"
  by pat_completeness auto
termination
  by (relation "measure (\<lambda>(numSubsets, numPoints2, i, lastData). nat (numSubsets - i))") auto

declare allocLoop.simps [simp del]

text \<open>Lines 190 to 198: the pool that \<^verbatim>\<open>myBuild\<close> hands to the generator. \<open>None\<close> is the
  \<^verbatim>\<open>null\<close> of the global \<^verbatim>\<open>lastData\<close> before the first call.\<close>

definition acquire :: "settings \<Rightarrow> pool option \<Rightarrow> trap + pool" where
  "acquire levelSettings lastData =
     (let numSubsets = ifloor (levelSettings 0);
          numPoints2 = ifloor (levelSettings 1) * 2
      in (case lastData of
            None \<Rightarrow>
              (if numSubsets < 0 then Inl InvalidArrayLength
               else allocLoop numSubsets numPoints2 0 (replicate (nat numSubsets) None))
          | Some p \<Rightarrow> Inr p))"

text \<open>The result is both the returned array and the new value of \<^verbatim>\<open>lastData\<close>.\<close>

definition myBuild :: "int \<Rightarrow> settings \<Rightarrow> draws \<Rightarrow> pool option \<Rightarrow> trap + pool" where
  "myBuild levelId levelSettings rnd lastData =
     (case acquire levelSettings lastData of
        Inl e \<Rightarrow> Inl e
      | Inr p \<Rightarrow> FractalGeometry levelId levelSettings rnd p)"

definition build :: "int \<Rightarrow> settings \<Rightarrow> draws \<Rightarrow> pool option \<Rightarrow> trap + pool" where
  "build levelId levelSettings rnd lastData = myBuild levelId levelSettings rnd lastData"

subsection \<open>The iteration as the specification words it\<close>

text \<open>The three formulas for \<open>z\<close>, selected by \<open>choice\<close>.\<close>

definition spec_z :: "real \<Rightarrow> real \<Rightarrow> real \<Rightarrow> real \<Rightarrow> real \<Rightarrow> real" where
  "spec_z ch b c d x =
     (if ch < 0.5 then d + sqrt \<bar>b * x - c\<bar>
      else if ch < 0.75 then d + sqrt (sqrt \<bar>b * x - c\<bar>)
      else d + ln (2 + sqrt \<bar>b * x - c\<bar>))"

text \<open>One step of the map: from the state \<open>(x, y)\<close> to the pair written at the even and
  the odd offset, which is the next state.\<close>

fun spec_step :: "coefs \<Rightarrow> real \<times> real \<Rightarrow> real \<times> real" where
  "spec_step K (x, y) =
     (let z = spec_z (choice K) (bl K) (cl K) (dl K) x;
          x1 = (if x > 0 then y - z else if x = 0 then y else y + z)
      in (x1 + el K, al K - x))"

declare spec_step.simps [simp del]

definition spec_orbit :: "coefs \<Rightarrow> real \<times> real \<Rightarrow> nat \<Rightarrow> real \<times> real" where
  "spec_orbit K p n = (spec_step K ^^ n) p"

definition trackP :: "extrema \<Rightarrow> real \<times> real \<Rightarrow> extrema" where
  "trackP E p = track E (fst p) (snd p)"

text \<open>A buffer in which the points \<open>lo\<close> up to \<open>hi - 1\<close> hold the orbit that starts at \<open>p\<close>
  before point \<open>lo\<close>, and every other entry is the one of \<open>b\<close>.\<close>

definition written :: "coefs \<Rightarrow> real \<times> real \<Rightarrow> nat \<Rightarrow> nat \<Rightarrow> Float32Array \<Rightarrow> Float32Array" where
  "written K p lo hi b =
     map (\<lambda>q. if 2 * lo \<le> q \<and> q < 2 * hi
              then (if even q then fst (spec_orbit K p (q div 2 - lo + 1))
                    else snd (spec_orbit K p (q div 2 - lo + 1)))
              else b ! q) [0..<length b]"

subsection \<open>What the two passes compute, in closed form\<close>

text \<open>The functions of this subsection are not part of the worker: they describe the
  results of its loops, and the lemmas of the next section prove that the loops compute
  them. \<open>seedOf rnd k s\<close> is the seed of subset \<open>s\<close> when its two draws are the draws \<open>k\<close>
  and \<open>k + 1\<close>.\<close>

definition seedOf :: "draws \<Rightarrow> nat \<Rightarrow> int \<Rightarrow> real \<times> real" where
  "seedOf rnd k s = (seed s (rnd k), seed s (rnd (k + 1)))"

definition orbitStates :: "coefs \<Rightarrow> draws \<Rightarrow> nat \<Rightarrow> nat \<Rightarrow> int \<Rightarrow> nat \<Rightarrow> (real \<times> real) list" where
  "orbitStates K rnd NP k s m =
     concat (map (\<lambda>j. map (spec_orbit K (seedOf rnd (k + 2 * j) (s + int j))) [0..<NP]) [0..<m])"

definition genPool :: "coefs \<Rightarrow> draws \<Rightarrow> nat \<Rightarrow> nat \<Rightarrow> nat \<Rightarrow> nat \<Rightarrow> pool \<Rightarrow> pool" where
  "genPool K rnd NP k lo hi p =
     map (\<lambda>t. if lo \<le> t \<and> t < hi
              then map_option (written K (seedOf rnd (k + 2 * (t - lo)) (int t)) 0 NP) (p ! t)
              else p ! t) [0..<length p]"

definition adequateFrom :: "nat \<Rightarrow> int \<Rightarrow> int \<Rightarrow> pool \<Rightarrow> bool" where
  "adequateFrom lo numSubsets numPoints p =
     ((int lo < numSubsets \<longrightarrow> numSubsets \<le> int (length p)) \<and>
      (\<forall>t. lo \<le> t \<and> int t < numSubsets \<longrightarrow>
           (\<exists>b. p ! t = Some b \<and> 2 * numPoints \<le> int (length b))))"

definition normAt :: "norm \<Rightarrow> Float32Array \<Rightarrow> nat \<Rightarrow> real \<times> real" where
  "normAt N b j =
     warp N (scaleX N * (b ! (2 * j) - nxMin N) - scaleFactor N,
             scaleY N * (b ! (2 * j + 1) - nyMin N) - scaleFactor N)"

definition normed :: "norm \<Rightarrow> nat \<Rightarrow> nat \<Rightarrow> Float32Array \<Rightarrow> Float32Array" where
  "normed N lo hi b =
     map (\<lambda>q. if 2 * lo \<le> q \<and> q < 2 * hi
              then (if even q then fst (normAt N b (q div 2)) else snd (normAt N b (q div 2)))
              else b ! q) [0..<length b]"

definition normPool :: "norm \<Rightarrow> nat \<Rightarrow> nat \<Rightarrow> nat \<Rightarrow> pool \<Rightarrow> pool" where
  "normPool N NP lo hi p =
     map (\<lambda>t. if lo \<le> t \<and> t < hi then map_option (normed N 0 NP) (p ! t) else p ! t)
       [0..<length p]"

subsection \<open>Predicates of the properties\<close>

text \<open>The pool has at least \<open>numSubsets\<close> buffers, and each of the first \<open>numSubsets\<close> has
  at least \<open>2 * numPoints\<close> entries.\<close>

definition adequate :: "int \<Rightarrow> int \<Rightarrow> pool \<Rightarrow> bool" where
  "adequate numSubsets numPoints reuse =
     (numSubsets \<le> int (length reuse) \<and>
      list_all (\<lambda>e. case e of None \<Rightarrow> False | Some b \<Rightarrow> 2 * numPoints \<le> int (length b))
        (take (nat numSubsets) reuse))"


text \<open>The extrema enclose the raw value 0.\<close>

definition containsZero :: "extrema \<Rightarrow> bool" where
  "containsZero E = (xMin E \<le> 0 \<and> 0 \<le> xMax E \<and> yMin E \<le> 0 \<and> 0 \<le> yMax E)"

text \<open>The second extrema are at least as wide as the first, on each of the four sides.\<close>

definition widened :: "extrema \<Rightarrow> extrema \<Rightarrow> bool" where
  "widened E E' = (xMin E' \<le> xMin E \<and> xMax E \<le> xMax E' \<and> yMin E' \<le> yMin E \<and> yMax E \<le> yMax E')"

text \<open>From the pool as the first pass leaves it: for each subset its seed, then the points
  it wrote, all but the last.\<close>

definition trackedPoints :: "settings \<Rightarrow> draws \<Rightarrow> pool \<Rightarrow> (real \<times> real) list" where
  "trackedPoints c rnd raw =
     concat (map (\<lambda>s. case raw ! s of
                         None \<Rightarrow> []
                       | Some b \<Rightarrow>
                           if nat (ifloor (c 2)) = 0 then []
                           else seedOf rnd (6 + 2 * s) (int s) #
                                map (\<lambda>j. (b ! (2 * j), b ! (2 * j + 1)))
                                  [0..<nat (ifloor (c 2)) - 1])
               [0..<nat (ifloor (c 1))])"

text \<open>The three fields of the settings from which the worker derives a size.\<close>

definition sizes :: "settings \<Rightarrow> int \<times> int \<times> int" where
  "sizes c = (ifloor (c 0), ifloor (c 1), ifloor (c 2))"

text \<open>A sequence of calls of \<^verbatim>\<open>build\<close>, each with its level, its settings and its draws,
  every one returning; the result is the final value of \<^verbatim>\<open>lastData\<close>.\<close>

fun builds :: "(int \<times> settings \<times> draws) list \<Rightarrow> pool option \<Rightarrow> trap + pool option" where
  "builds [] lastData = Inr lastData"
| "builds ((levelId, c, rnd) # calls) lastData =
     (case build levelId c rnd lastData of
        Inl e \<Rightarrow> Inl e
      | Inr p \<Rightarrow> builds calls (Some p))"

definition sameSizes :: "settings \<Rightarrow> (int \<times> settings \<times> draws) list \<Rightarrow> bool" where
  "sameSizes c calls = list_all (\<lambda>call. sizes (fst (snd call)) = sizes c) calls"

text \<open>Two pools of the same shape that differ at most in the first \<open>2 * NP\<close> entries of
  their first \<open>NS\<close> buffers.\<close>

definition sameOutside :: "nat \<Rightarrow> nat \<Rightarrow> pool \<Rightarrow> pool \<Rightarrow> bool" where
  "sameOutside NS NP p q =
     (length p = length q \<and>
      (\<forall>t<length p. p ! t = q ! t \<or>
         (t < NS \<and> (\<exists>x y. p ! t = Some x \<and> q ! t = Some y \<and> length x = length y \<and>
                           (\<forall>j<length x. 2 * NP \<le> j \<longrightarrow> x ! j = y ! j)))))"

text \<open>What every value of \<^verbatim>\<open>lastData\<close> satisfies that is reached by calls with the sizes
  of \<open>c\<close>.\<close>

definition poolInv :: "settings \<Rightarrow> pool option \<Rightarrow> bool" where
  "poolInv c lastData =
     (case lastData of
        None \<Rightarrow> True
      | Some p \<Rightarrow>
          (\<exists>P0. acquire c None = Inr P0 \<and> adequate (ifloor (c 1)) (ifloor (c 2)) P0 \<and>
                sameOutside (nat (ifloor (c 1))) (nat (ifloor (c 2))) P0 p))"

subsection \<open>Concrete inputs\<close>

text \<open>All draws are 0, so every coefficient is the lower end of its range. The settings
  are named after their fields 0, 1 and 2; they have the scale factor 100, no tunnel and
  the coefficients \<open>a = 10\<close>, \<open>e = 1\<close> and \<open>b = c = d = 0\<close>, but for \<open>settings222b\<close> with the
  scale factor 50, \<open>a = 4\<close> and \<open>e = 2\<close>. Every value that occurs is a small integer.\<close>

definition zeroDraws :: draws where
  "zeroDraws = (\<lambda>_. 0)"

definition settings222 :: settings where
  "settings222 = mkSettings [2, 2, 2, 100, 0, 0, 0, 10, 10, 0, 0, 0, 0, 0, 0, 1, 1]"

definition settings222b :: settings where
  "settings222b = mkSettings [2, 2, 2, 50, 0, 0, 0, 4, 4, 0, 0, 0, 0, 0, 0, 2, 2]"


definition settings332 :: settings where
  "settings332 = mkSettings [3, 3, 2, 100, 0, 0, 0, 10, 10, 0, 0, 0, 0, 0, 0, 1, 1]"

definition settings442 :: settings where
  "settings442 = mkSettings [4, 4, 2, 100, 0, 0, 0, 10, 10, 0, 0, 0, 0, 0, 0, 1, 1]"

section \<open>Properties\<close>

lemmas eval_defs = build_def myBuild_def acquire_def FractalGeometry_def generate_def
  genSubset.simps genPoint.simps normSubset_def normPoint_def mkNorm_def drawCoefs_def coef_def
  extrema0_def track_def warp.simps getPointDistance_def isqrt_def iabs_def ilog_def ifloor_def
  i32_div_def seed_def f32_get_def f32_set_def pool_get_def mkSettings_def
  allocLoop.simps genSubsets.simps genPoints.simps normSubsets.simps normPoints.simps Let_def
  eval_nat_numeral

subsection \<open>The loops in closed form\<close>

lemma genPoint_eq:
  "genPoint K i (x, y, E, b) =
     (if 0 \<le> i \<and> 2 * i + 1 < int (length b)
      then Inr (fst (spec_step K (x, y)), snd (spec_step K (x, y)), track E x y,
                b[nat (2 * i + 1) := snd (spec_step K (x, y)),
                  nat (2 * i) := fst (spec_step K (x, y))])
      else Inl IndexOutOfBounds)"
  by (auto simp: genPoint.simps spec_step.simps f32_set_def Let_def spec_z_def isqrt_def
      iabs_def ilog_def mult.commute)

lemma spec_orbit_0: "spec_orbit K p 0 = p"
  by (simp add: spec_orbit_def)

lemma spec_orbit_Suc: "spec_orbit K p (Suc n) = spec_orbit K (spec_step K p) n"
  by (simp add: spec_orbit_def funpow_swap1)

lemma written_length: "length (written K p lo hi b) = length b"
  by (simp add: written_def)

lemma written_nth:
  "q < length b \<Longrightarrow> written K p lo hi b ! q =
     (if 2 * lo \<le> q \<and> q < 2 * hi
      then (if even q then fst (spec_orbit K p (q div 2 - lo + 1))
            else snd (spec_orbit K p (q div 2 - lo + 1)))
      else b ! q)"
  by (simp add: written_def)

lemma written_empty: "hi \<le> lo \<Longrightarrow> written K p lo hi b = b"
  by (rule nth_equalityI) (auto simp: written_length written_nth)

lemma written_step:
  assumes "2 * lo + 1 < length b" "lo < hi"
  shows "written K (spec_step K p) (Suc lo) hi
           (b[2 * lo + 1 := snd (spec_step K p), 2 * lo := fst (spec_step K p)])
         = written K p lo hi b"
proof (rule nth_equalityI)
  show "length (written K (spec_step K p) (Suc lo) hi
           (b[2 * lo + 1 := snd (spec_step K p), 2 * lo := fst (spec_step K p)]))
        = length (written K p lo hi b)"
    by (simp add: written_length)
next
  fix q
  assume "q < length (written K (spec_step K p) (Suc lo) hi
           (b[2 * lo + 1 := snd (spec_step K p), 2 * lo := fst (spec_step K p)]))"
  then have q: "q < length b" by (simp add: written_length)
  consider "q = 2 * lo" | "q = 2 * lo + 1" | "q < 2 * lo" | "2 * lo + 2 \<le> q" by linarith
  then show "written K (spec_step K p) (Suc lo) hi
           (b[2 * lo + 1 := snd (spec_step K p), 2 * lo := fst (spec_step K p)]) ! q
        = written K p lo hi b ! q"
  proof cases
    case 1
    then show ?thesis using q assms
      by (simp add: written_nth spec_orbit_Suc spec_orbit_0)
  next
    case 2
    then show ?thesis using q assms
      by (simp add: written_nth spec_orbit_Suc spec_orbit_0)
  next
    case 3
    then show ?thesis using q assms by (simp add: written_nth)
  next
    case 4
    then have "q div 2 - lo = Suc (q div 2 - Suc lo)" by linarith
    with 4 show ?thesis using q assms
      by (simp add: written_nth spec_orbit_Suc)
  qed
qed

lemma foldl_trackP_shift:
  "foldl trackP (track E x y) (map (spec_orbit K (spec_step K (x, y))) [0..<m])
   = foldl trackP E (map (spec_orbit K (x, y)) [0..<Suc m])"
proof -
  have "[0..<Suc m] = 0 # map Suc [0..<m]"
    by (simp add: upt_conv_Cons map_Suc_upt del: upt_Suc)
  then show ?thesis
    by (simp add: spec_orbit_0 spec_orbit_Suc trackP_def o_def del: upt_Suc)
qed

lemma genPoints_eq:
  "0 \<le> i \<Longrightarrow> nat (numPoints - i) = m \<Longrightarrow>
   genPoints K numPoints i (x, y, E, b) =
     (if i < numPoints
      then (if 2 * numPoints \<le> int (length b)
            then Inr (fst (spec_orbit K (x, y) m), snd (spec_orbit K (x, y) m),
                      foldl trackP E (map (spec_orbit K (x, y)) [0..<m]),
                      written K (x, y) (nat i) (nat numPoints) b)
            else Inl IndexOutOfBounds)
      else Inr (x, y, E, b))"
proof (induction m arbitrary: i x y E b)
  case 0
  then show ?case by (simp add: genPoints.simps)
next
  case (Suc m)
  then have lt: "i < numPoints" and m: "nat (numPoints - (i + 1)) = m" by linarith+
  show ?case
  proof (cases "2 * i + 1 < int (length b)")
    case False
    with lt Suc.prems show ?thesis
      by (subst genPoints.simps) (simp add: genPoint_eq)
  next
    case True
    obtain x' y' where step: "spec_step K (x, y) = (x', y')" by (cases "spec_step K (x, y)")
    let ?b = "b[nat (2 * i + 1) := y', nat (2 * i) := x']"
    have gp: "genPoint K i (x, y, E, b) = Inr (x', y', track E x y, ?b)"
      using True Suc.prems by (simp add: genPoint_eq step)
    have IH: "genPoints K numPoints (i + 1) (x', y', track E x y, ?b) =
      (if i + 1 < numPoints
       then (if 2 * numPoints \<le> int (length ?b)
             then Inr (fst (spec_orbit K (x', y') m), snd (spec_orbit K (x', y') m),
                      foldl trackP (track E x y) (map (spec_orbit K (x', y')) [0..<m]),
                      written K (x', y') (nat (i + 1)) (nat numPoints) ?b)
             else Inl IndexOutOfBounds)
       else Inr (x', y', track E x y, ?b))"
      using Suc.IH [of "i + 1" x' y' "track E x y" ?b] Suc.prems m by simp
    have nats: "nat (2 * i + 1) = 2 * nat i + 1" "nat (2 * i) = 2 * nat i" "nat (i + 1) = Suc (nat i)"
      using Suc.prems by (simp_all add: nat_add_distrib nat_mult_distrib)
    have wr: "written K (x', y') (Suc (nat i)) (nat numPoints) (b[2 * nat i + 1 := y', 2 * nat i := x'])
            = written K (x, y) (nat i) (nat numPoints) b"
      using written_step [of "nat i" b "nat numPoints" K "(x, y)"] True lt Suc.prems
      by (simp add: step)
    show ?thesis
    proof (cases "i + 1 < numPoints")
      case True
      then show ?thesis
        using lt gp IH wr foldl_trackP_shift [of E x y K m]
        by (subst genPoints.simps) (simp add: nats step spec_orbit_Suc del: upt_Suc)
    next
      case False
      then have m0: "m = 0" using m by simp
      have le: "2 * numPoints \<le> int (length b)" using False lt True by linarith
      have "written K (x', y') (Suc (nat i)) (nat numPoints) (b[2 * nat i + 1 := y', 2 * nat i := x'])
            = b[2 * nat i + 1 := y', 2 * nat i := x']"
        using False lt by (intro written_empty) linarith
      then show ?thesis
        using lt gp IH wr False le m0
        by (subst genPoints.simps) (simp add: nats step spec_orbit_Suc spec_orbit_0 trackP_def)
    qed
  qed
qed

lemma genPoints_0:
  "genPoints K numPoints 0 (x, y, E, b) =
     (if 2 * numPoints \<le> int (length b)
      then Inr (fst (spec_orbit K (x, y) (nat numPoints)),
                snd (spec_orbit K (x, y) (nat numPoints)),
                foldl trackP E (map (spec_orbit K (x, y)) [0..<nat numPoints]),
                written K (x, y) 0 (nat numPoints) b)
      else Inl IndexOutOfBounds)"
proof (cases "0 < numPoints")
  case True
  then show ?thesis
    using genPoints_eq [of 0 numPoints "nat numPoints" K x y E b] by simp
next
  case False
  then show ?thesis
    using genPoints_eq [of 0 numPoints 0 K x y E b]
    by (simp add: spec_orbit_0 written_empty)
qed

lemma genSubset_eq:
  "genSubset K rnd numPoints s (E, k, reuse) =
     (if 0 \<le> s \<and> s < int (length reuse)
      then (case reuse ! nat s of
              None \<Rightarrow> Inl NullReference
            | Some b \<Rightarrow>
                if 2 * numPoints \<le> int (length b)
                then Inr (foldl trackP E (map (spec_orbit K (seedOf rnd k s)) [0..<nat numPoints]),
                          k + 2,
                          reuse[nat s := Some (written K (seedOf rnd k s) 0 (nat numPoints) b)])
                else Inl IndexOutOfBounds)
      else Inl IndexOutOfBounds)"
  by (simp add: genSubset.simps pool_get_def genPoints_0 seedOf_def Let_def split: option.split)

lemma orbitStates_0: "orbitStates K rnd NP k s 0 = []"
  by (simp add: orbitStates_def)

lemma orbitStates_Suc:
  "orbitStates K rnd NP k s (Suc m) =
     map (spec_orbit K (seedOf rnd k s)) [0..<NP] @ orbitStates K rnd NP (k + 2) (s + 1) m"
proof -
  have "[0..<Suc m] = 0 # map Suc [0..<m]"
    by (simp add: upt_conv_Cons map_Suc_upt del: upt_Suc)
  then show ?thesis
    by (simp add: orbitStates_def o_def add.commute add.left_commute del: upt_Suc)
qed

lemma genPool_length: "length (genPool K rnd NP k lo hi p) = length p"
  by (simp add: genPool_def)

lemma genPool_nth:
  "t < length p \<Longrightarrow> genPool K rnd NP k lo hi p ! t =
     (if lo \<le> t \<and> t < hi
      then map_option (written K (seedOf rnd (k + 2 * (t - lo)) (int t)) 0 NP) (p ! t)
      else p ! t)"
  by (simp add: genPool_def)

lemma genPool_empty: "hi \<le> lo \<Longrightarrow> genPool K rnd NP k lo hi p = p"
  by (rule nth_equalityI) (auto simp: genPool_length genPool_nth)

lemma genPool_step:
  assumes "lo < length p" "p ! lo = Some b" "lo < hi"
  shows "genPool K rnd NP (k + 2) (Suc lo) hi
           (p[lo := Some (written K (seedOf rnd k (int lo)) 0 NP b)])
         = genPool K rnd NP k lo hi p"
proof (rule nth_equalityI)
  show "length (genPool K rnd NP (k + 2) (Suc lo) hi
           (p[lo := Some (written K (seedOf rnd k (int lo)) 0 NP b)]))
        = length (genPool K rnd NP k lo hi p)"
    by (simp add: genPool_length)
next
  fix t
  assume "t < length (genPool K rnd NP (k + 2) (Suc lo) hi
           (p[lo := Some (written K (seedOf rnd k (int lo)) 0 NP b)]))"
  then have t: "t < length p" by (simp add: genPool_length)
  consider "t = lo" | "t < lo" | "lo < t" by linarith
  then show "genPool K rnd NP (k + 2) (Suc lo) hi
           (p[lo := Some (written K (seedOf rnd k (int lo)) 0 NP b)]) ! t
        = genPool K rnd NP k lo hi p ! t"
  proof cases
    case 1
    then show ?thesis using t assms by (simp add: genPool_nth)
  next
    case 2
    then show ?thesis using t assms by (simp add: genPool_nth)
  next
    case 3
    then have e: "t - lo = Suc (t - Suc lo)" by linarith
    from 3 show ?thesis using t assms by (simp add: genPool_nth e)
  qed
qed

lemma adequateFrom_step:
  assumes "lo < length p" "p ! lo = Some b" "2 * numPoints \<le> int (length b)"
  shows "adequateFrom (Suc lo) numSubsets numPoints (p[lo := Some w])
         = adequateFrom lo numSubsets numPoints p"
proof
  assume L: "adequateFrom (Suc lo) numSubsets numPoints (p[lo := Some w])"
  have 1: "int lo < numSubsets \<longrightarrow> numSubsets \<le> int (length p)"
  proof
    assume "int lo < numSubsets"
    then consider "int (Suc lo) < numSubsets" | "numSubsets = int lo + 1" by fastforce
    then show "numSubsets \<le> int (length p)"
    proof cases
      case 1
      with L show ?thesis by (simp add: adequateFrom_def)
    next
      case 2
      with assms(1) show ?thesis by simp
    qed
  qed
  have 2: "\<exists>b. p ! t = Some b \<and> 2 * numPoints \<le> int (length b)"
    if t: "lo \<le> t \<and> int t < numSubsets" for t
  proof (cases "t = lo")
    case True
    with assms show ?thesis by simp
  next
    case False
    with t have "Suc lo \<le> t \<and> int t < numSubsets" by simp
    with L have "\<exists>b. p[lo := Some w] ! t = Some b \<and> 2 * numPoints \<le> int (length b)"
      unfolding adequateFrom_def by blast
    with False show ?thesis by simp
  qed
  from 1 2 show "adequateFrom lo numSubsets numPoints p"
    unfolding adequateFrom_def by blast
next
  assume R: "adequateFrom lo numSubsets numPoints p"
  have 1: "int (Suc lo) < numSubsets \<longrightarrow> numSubsets \<le> int (length (p[lo := Some w]))"
    using R by (simp add: adequateFrom_def)
  have 2: "\<exists>b. p[lo := Some w] ! t = Some b \<and> 2 * numPoints \<le> int (length b)"
    if t: "Suc lo \<le> t \<and> int t < numSubsets" for t
  proof -
    from t have "lo \<le> t \<and> int t < numSubsets" by simp
    with R have "\<exists>b. p ! t = Some b \<and> 2 * numPoints \<le> int (length b)"
      unfolding adequateFrom_def by blast
    with t show ?thesis by simp
  qed
  from 1 2 show "adequateFrom (Suc lo) numSubsets numPoints (p[lo := Some w])"
    unfolding adequateFrom_def by blast
qed

lemma genSubsets_Inr_iff:
  "0 \<le> s \<Longrightarrow> nat (numSubsets - s) = m \<Longrightarrow>
   (genSubsets K rnd numSubsets numPoints s (E, k, p) = Inr r) =
     (adequateFrom (nat s) numSubsets numPoints p \<and>
      r = (foldl trackP E (orbitStates K rnd (nat numPoints) k s m), k + 2 * m,
           genPool K rnd (nat numPoints) k (nat s) (nat numSubsets) p))"
proof (induction m arbitrary: s E k p)
  case 0
  then have "\<not> s < numSubsets" by simp
  moreover from this 0 have "adequateFrom (nat s) numSubsets numPoints p"
    by (auto simp: adequateFrom_def)
  moreover have "genPool K rnd (nat numPoints) k (nat s) (nat numSubsets) p = p"
    using \<open>\<not> s < numSubsets\<close> by (intro genPool_empty) simp
  ultimately show ?case
    by (subst genSubsets.simps) (auto simp: orbitStates_0)
next
  case (Suc m)
  then have lt: "s < numSubsets" and m: "nat (numSubsets - (s + 1)) = m" by linarith+
  have s1: "nat (s + 1) = Suc (nat s)" using Suc.prems by simp
  show ?case
  proof (cases "s < int (length p) \<and> (\<exists>b. p ! nat s = Some b \<and> 2 * numPoints \<le> int (length b))")
    case False
    then have "\<not> adequateFrom (nat s) numSubsets numPoints p"
      using lt Suc.prems unfolding adequateFrom_def
      by (metis int_nat_eq le_refl less_le_trans)
    moreover have "\<exists>e. genSubset K rnd numPoints s (E, k, p) = Inl e"
      using False by (auto simp: genSubset_eq split: option.split)
    ultimately show ?thesis
      using lt by (subst genSubsets.simps) auto
  next
    case True
    then obtain b where b: "s < int (length p)" "p ! nat s = Some b"
      "2 * numPoints \<le> int (length b)" by blast
    let ?E = "foldl trackP E (map (spec_orbit K (seedOf rnd k s)) [0..<nat numPoints])"
    let ?p = "p[nat s := Some (written K (seedOf rnd k s) 0 (nat numPoints) b)]"
    have gs: "genSubset K rnd numPoints s (E, k, p) = Inr (?E, k + 2, ?p)"
      using b Suc.prems by (simp add: genSubset_eq)
    have lo: "nat s < length p" "nat s < nat numSubsets" "int (nat s) = s"
      using b lt Suc.prems by simp_all
    have ad: "adequateFrom (Suc (nat s)) numSubsets numPoints ?p
              = adequateFrom (nat s) numSubsets numPoints p"
      using b lo by (intro adequateFrom_step) simp_all
    have gp: "genPool K rnd (nat numPoints) (k + 2) (Suc (nat s)) (nat numSubsets) ?p
              = genPool K rnd (nat numPoints) k (nat s) (nat numSubsets) p"
      using genPool_step [of "nat s" p b "nat numSubsets" K rnd "nat numPoints" k] b lo
      by simp
    have "(genSubsets K rnd numSubsets numPoints s (E, k, p) = Inr r)
          = (genSubsets K rnd numSubsets numPoints (s + 1) (?E, k + 2, ?p) = Inr r)"
      using lt gs by (subst genSubsets.simps) simp
    also have "\<dots> = (adequateFrom (nat (s + 1)) numSubsets numPoints ?p \<and>
        r = (foldl trackP ?E (orbitStates K rnd (nat numPoints) (k + 2) (s + 1) m),
             k + 2 + 2 * m,
             genPool K rnd (nat numPoints) (k + 2) (nat (s + 1)) (nat numSubsets) ?p))"
      using Suc.IH [of "s + 1" ?E "k + 2" ?p] Suc.prems m by simp
    finally have step: "(genSubsets K rnd numSubsets numPoints s (E, k, p) = Inr r)
        = (adequateFrom (nat s) numSubsets numPoints p \<and>
           r = (foldl trackP ?E (orbitStates K rnd (nat numPoints) (k + 2) (s + 1) m),
                k + 2 + 2 * m,
                genPool K rnd (nat numPoints) k (nat s) (nat numSubsets) p))"
      by (simp only: s1 ad gp)
    show ?thesis
      unfolding step orbitStates_Suc foldl_append by simp
  qed
qed

lemma normPoint_eq:
  "normPoint N i b =
     (if 0 \<le> i \<and> 2 * i + 1 < int (length b)
      then Inr (b[nat (2 * i) := fst (normAt N b (nat i)),
                  nat (2 * i + 1) := snd (normAt N b (nat i))])
      else Inl IndexOutOfBounds)"
proof (cases "0 \<le> i \<and> 2 * i + 1 < int (length b)")
  case True
  then have "nat (2 * i) = 2 * nat i" "nat (2 * i + 1) = 2 * nat i + 1"
    by (simp_all add: nat_add_distrib nat_mult_distrib)
  with True show ?thesis
    by (simp add: normPoint_def f32_get_def f32_set_def normAt_def Let_def mult.commute
        split: prod.split)
next
  case False
  then show ?thesis
    by (auto simp: normPoint_def f32_get_def f32_set_def Let_def split: prod.split)
qed

lemma normed_length: "length (normed N lo hi b) = length b"
  by (simp add: normed_def)

lemma normed_nth:
  "q < length b \<Longrightarrow> normed N lo hi b ! q =
     (if 2 * lo \<le> q \<and> q < 2 * hi
      then (if even q then fst (normAt N b (q div 2)) else snd (normAt N b (q div 2)))
      else b ! q)"
  by (simp add: normed_def)

lemma normed_empty: "hi \<le> lo \<Longrightarrow> normed N lo hi b = b"
  by (rule nth_equalityI) (auto simp: normed_length normed_nth)

lemma normAt_update:
  "j \<noteq> lo \<Longrightarrow> normAt N (b[2 * lo := X, 2 * lo + 1 := Y]) j = normAt N b j"
proof -
  assume "j \<noteq> lo"
  then have "2 * j \<noteq> 2 * lo" "2 * j \<noteq> 2 * lo + 1" "2 * j + 1 \<noteq> 2 * lo"
    "2 * j + 1 \<noteq> 2 * lo + 1" by presburger+
  then show ?thesis
    by (simp add: normAt_def)
qed

lemma normed_step:
  assumes "2 * lo + 1 < length b" "lo < hi"
  shows "normed N (Suc lo) hi (b[2 * lo := fst (normAt N b lo), 2 * lo + 1 := snd (normAt N b lo)])
         = normed N lo hi b"
proof (rule nth_equalityI)
  show "length (normed N (Suc lo) hi
           (b[2 * lo := fst (normAt N b lo), 2 * lo + 1 := snd (normAt N b lo)]))
        = length (normed N lo hi b)"
    by (simp add: normed_length)
next
  fix q
  assume "q < length (normed N (Suc lo) hi
           (b[2 * lo := fst (normAt N b lo), 2 * lo + 1 := snd (normAt N b lo)]))"
  then have q: "q < length b" by (simp add: normed_length)
  consider "q = 2 * lo" | "q = 2 * lo + 1" | "q < 2 * lo" | "2 * lo + 2 \<le> q" by linarith
  then show "normed N (Suc lo) hi
           (b[2 * lo := fst (normAt N b lo), 2 * lo + 1 := snd (normAt N b lo)]) ! q
        = normed N lo hi b ! q"
  proof cases
    case 1
    then show ?thesis using q assms by (simp add: normed_nth)
  next
    case 2
    then show ?thesis using q assms by (simp add: normed_nth)
  next
    case 3
    then show ?thesis using q assms by (simp add: normed_nth)
  next
    case 4
    then have "q div 2 \<noteq> lo" by linarith
    then have u: "normAt N (b[2 * lo := fst (normAt N b lo), 2 * lo + 1 := snd (normAt N b lo)])
                    (q div 2) = normAt N b (q div 2)"
      by (rule normAt_update)
    from 4 show ?thesis using q assms by (simp add: normed_nth) (simp add: u [simplified])
  qed
qed

lemma normPoints_eq:
  "0 \<le> i \<Longrightarrow> nat (numPoints - i) = m \<Longrightarrow>
   normPoints N numPoints i b =
     (if i < numPoints
      then (if 2 * numPoints \<le> int (length b)
            then Inr (normed N (nat i) (nat numPoints) b)
            else Inl IndexOutOfBounds)
      else Inr b)"
proof (induction m arbitrary: i b)
  case 0
  then show ?case by (simp add: normPoints.simps)
next
  case (Suc m)
  then have lt: "i < numPoints" and m: "nat (numPoints - (i + 1)) = m" by linarith+
  show ?case
  proof (cases "2 * i + 1 < int (length b)")
    case False
    with lt Suc.prems show ?thesis
      by (subst normPoints.simps) (simp add: normPoint_eq)
  next
    case True
    have nats: "nat (2 * i + 1) = 2 * nat i + 1" "nat (2 * i) = 2 * nat i" "nat (i + 1) = Suc (nat i)"
      using Suc.prems by (simp_all add: nat_add_distrib nat_mult_distrib)
    let ?b = "b[2 * nat i := fst (normAt N b (nat i)), 2 * nat i + 1 := snd (normAt N b (nat i))]"
    have np: "normPoint N i b = Inr ?b"
      using True Suc.prems by (simp add: normPoint_eq nats)
    have IH: "normPoints N numPoints (i + 1) ?b =
      (if i + 1 < numPoints
       then (if 2 * numPoints \<le> int (length ?b)
             then Inr (normed N (nat (i + 1)) (nat numPoints) ?b)
             else Inl IndexOutOfBounds)
       else Inr ?b)"
      using Suc.IH [of "i + 1" ?b] Suc.prems m by simp
    have st: "normed N (Suc (nat i)) (nat numPoints) ?b = normed N (nat i) (nat numPoints) b"
      using True lt Suc.prems by (intro normed_step) simp_all
    show ?thesis
    proof (cases "i + 1 < numPoints")
      case True
      then show ?thesis
        using lt np IH st by (subst normPoints.simps) (simp add: nats)
    next
      case False
      have le: "2 * numPoints \<le> int (length b)" using False lt True by linarith
      have "normed N (Suc (nat i)) (nat numPoints) ?b = ?b"
        using False lt by (intro normed_empty) linarith
      then show ?thesis
        using lt np IH st False le by (subst normPoints.simps) (simp add: nats)
    qed
  qed
qed

lemma normPoints_0:
  "normPoints N numPoints 0 b =
     (if 2 * numPoints \<le> int (length b) then Inr (normed N 0 (nat numPoints) b)
      else Inl IndexOutOfBounds)"
proof (cases "0 < numPoints")
  case True
  then show ?thesis
    using normPoints_eq [of 0 numPoints "nat numPoints" N b] by simp
next
  case False
  then show ?thesis
    using normPoints_eq [of 0 numPoints 0 N b] by (simp add: normed_empty)
qed

lemma normSubset_eq:
  "normSubset N numPoints s reuse =
     (if 0 \<le> s \<and> s < int (length reuse)
      then (case reuse ! nat s of
              None \<Rightarrow> Inl NullReference
            | Some b \<Rightarrow>
                if 2 * numPoints \<le> int (length b)
                then Inr (reuse[nat s := Some (normed N 0 (nat numPoints) b)])
                else Inl IndexOutOfBounds)
      else Inl IndexOutOfBounds)"
  by (simp add: normSubset_def pool_get_def normPoints_0 split: option.split)

lemma normPool_length: "length (normPool N NP lo hi p) = length p"
  by (simp add: normPool_def)

lemma normPool_nth:
  "t < length p \<Longrightarrow> normPool N NP lo hi p ! t =
     (if lo \<le> t \<and> t < hi then map_option (normed N 0 NP) (p ! t) else p ! t)"
  by (simp add: normPool_def)

lemma normPool_empty: "hi \<le> lo \<Longrightarrow> normPool N NP lo hi p = p"
  by (rule nth_equalityI) (auto simp: normPool_length normPool_nth)

lemma normPool_step:
  assumes "lo < length p" "p ! lo = Some b" "lo < hi"
  shows "normPool N NP (Suc lo) hi (p[lo := Some (normed N 0 NP b)]) = normPool N NP lo hi p"
proof (rule nth_equalityI)
  show "length (normPool N NP (Suc lo) hi (p[lo := Some (normed N 0 NP b)]))
        = length (normPool N NP lo hi p)"
    by (simp add: normPool_length)
next
  fix t
  assume "t < length (normPool N NP (Suc lo) hi (p[lo := Some (normed N 0 NP b)]))"
  then have t: "t < length p" by (simp add: normPool_length)
  consider "t = lo" | "t < lo" | "lo < t" by linarith
  then show "normPool N NP (Suc lo) hi (p[lo := Some (normed N 0 NP b)]) ! t
        = normPool N NP lo hi p ! t"
  proof cases
    case 1
    then show ?thesis using t assms by (simp add: normPool_nth)
  next
    case 2
    then show ?thesis using t assms by (simp add: normPool_nth)
  next
    case 3
    then show ?thesis using t assms by (simp add: normPool_nth)
  qed
qed

lemma normSubsets_Inr_iff:
  "0 \<le> s \<Longrightarrow> nat (numSubsets - s) = m \<Longrightarrow>
   (normSubsets N numSubsets numPoints s p = Inr r) =
     (adequateFrom (nat s) numSubsets numPoints p \<and>
      r = normPool N (nat numPoints) (nat s) (nat numSubsets) p)"
proof (induction m arbitrary: s p)
  case 0
  then have "\<not> s < numSubsets" by simp
  moreover from this 0 have "adequateFrom (nat s) numSubsets numPoints p"
    by (auto simp: adequateFrom_def)
  moreover have "normPool N (nat numPoints) (nat s) (nat numSubsets) p = p"
    using \<open>\<not> s < numSubsets\<close> by (intro normPool_empty) simp
  ultimately show ?case
    by (subst normSubsets.simps) auto
next
  case (Suc m)
  then have lt: "s < numSubsets" and m: "nat (numSubsets - (s + 1)) = m" by linarith+
  have s1: "nat (s + 1) = Suc (nat s)" using Suc.prems by simp
  show ?case
  proof (cases "s < int (length p) \<and> (\<exists>b. p ! nat s = Some b \<and> 2 * numPoints \<le> int (length b))")
    case False
    then have "\<not> adequateFrom (nat s) numSubsets numPoints p"
      using lt Suc.prems unfolding adequateFrom_def
      by (metis int_nat_eq le_refl less_le_trans)
    moreover have "\<exists>e. normSubset N numPoints s p = Inl e"
      using False by (auto simp: normSubset_eq split: option.split)
    ultimately show ?thesis
      using lt by (subst normSubsets.simps) auto
  next
    case True
    then obtain b where b: "s < int (length p)" "p ! nat s = Some b"
      "2 * numPoints \<le> int (length b)" by blast
    let ?p = "p[nat s := Some (normed N 0 (nat numPoints) b)]"
    have ns: "normSubset N numPoints s p = Inr ?p"
      using b Suc.prems by (simp add: normSubset_eq)
    have lo: "nat s < length p" "nat s < nat numSubsets" "int (nat s) = s"
      using b lt Suc.prems by simp_all
    have ad: "adequateFrom (Suc (nat s)) numSubsets numPoints ?p
              = adequateFrom (nat s) numSubsets numPoints p"
      using b lo by (intro adequateFrom_step) simp_all
    have np: "normPool N (nat numPoints) (Suc (nat s)) (nat numSubsets) ?p
              = normPool N (nat numPoints) (nat s) (nat numSubsets) p"
      using b lo by (intro normPool_step) simp_all
    have "(normSubsets N numSubsets numPoints s p = Inr r)
          = (normSubsets N numSubsets numPoints (s + 1) ?p = Inr r)"
      using lt ns by (subst normSubsets.simps) simp
    also have "\<dots> = (adequateFrom (nat (s + 1)) numSubsets numPoints ?p \<and>
        r = normPool N (nat numPoints) (nat (s + 1)) (nat numSubsets) ?p)"
      using Suc.IH [of "s + 1" ?p] Suc.prems m by simp
    finally show ?thesis
      by (simp only: s1 ad np)
  qed
qed

subsection \<open>The two passes in closed form\<close>

lemma entry_ok_iff:
  "(case e of None \<Rightarrow> False | Some b \<Rightarrow> 2 * numPoints \<le> int (length b))
   = (\<exists>b. e = Some b \<and> 2 * numPoints \<le> int (length b))"
  by (cases e) simp_all

lemma adequate_iff: "adequate numSubsets numPoints p = adequateFrom 0 numSubsets numPoints p"
proof (cases "numSubsets \<le> int (length p)")
  case True
  then have len: "length (take (nat numSubsets) p) = nat numSubsets" by simp
  have "list_all (\<lambda>e. case e of None \<Rightarrow> False | Some b \<Rightarrow> 2 * numPoints \<le> int (length b))
          (take (nat numSubsets) p)
        = (\<forall>t. int t < numSubsets \<longrightarrow> (\<exists>b. p ! t = Some b \<and> 2 * numPoints \<le> int (length b)))"
    unfolding list_all_length len entry_ok_iff
    by (simp add: zless_nat_eq_int_zless)
  with True show ?thesis
    by (simp add: adequate_def adequateFrom_def)
next
  case False
  then show ?thesis
    by (auto simp: adequate_def adequateFrom_def)
qed

lemma adequateFrom_same_shape:
  assumes "length p = length q"
    and "\<And>t b. t < length p \<Longrightarrow> p ! t = Some b \<Longrightarrow> \<exists>b'. q ! t = Some b' \<and> length b' = length b"
    and "adequateFrom lo numSubsets numPoints p"
  shows "adequateFrom lo numSubsets numPoints q"
  unfolding adequateFrom_def
proof (intro conjI allI impI)
  assume "int lo < numSubsets"
  with assms(1,3) show "numSubsets \<le> int (length q)"
    by (simp add: adequateFrom_def)
next
  fix t
  assume t: "lo \<le> t \<and> int t < numSubsets"
  with assms(3) obtain b where b: "p ! t = Some b" "2 * numPoints \<le> int (length b)"
    unfolding adequateFrom_def by blast
  from t assms(3) have "t < length p"
    unfolding adequateFrom_def by force
  from assms(2) [OF this b(1)] b(2)
  show "\<exists>b. q ! t = Some b \<and> 2 * numPoints \<le> int (length b)"
    by auto
qed

lemma adequateFrom_genPool:
  "adequateFrom lo' numSubsets numPoints p \<Longrightarrow>
   adequateFrom lo' numSubsets numPoints (genPool K rnd NP k lo hi p)"
  by (rule adequateFrom_same_shape [of p])
    (auto simp: genPool_length genPool_nth written_length)

lemma generate_Inr_iff:
  "(generate c rnd p = Inr r) =
     (adequate (ifloor (c 1)) (ifloor (c 2)) p \<and>
      r = (foldl trackP extrema0
             (orbitStates (drawCoefs c rnd) rnd (nat (ifloor (c 2))) 6 0 (nat (ifloor (c 1)))),
           6 + 2 * nat (ifloor (c 1)),
           genPool (drawCoefs c rnd) rnd (nat (ifloor (c 2))) 6 0 (nat (ifloor (c 1))) p))"
  using genSubsets_Inr_iff [of 0 "ifloor (c 1)" "nat (ifloor (c 1))" "drawCoefs c rnd" rnd
      "ifloor (c 2)" extrema0 6 p r]
  by (simp add: generate_def adequate_iff Let_def)

lemma FractalGeometry_Inr_iff:
  "(FractalGeometry levelId c rnd p = Inr q) =
     (adequate (ifloor (c 1)) (ifloor (c 2)) p \<and>
      q = normPool
            (mkNorm c (foldl trackP extrema0
               (orbitStates (drawCoefs c rnd) rnd (nat (ifloor (c 2))) 6 0 (nat (ifloor (c 1))))))
            (nat (ifloor (c 2))) 0 (nat (ifloor (c 1)))
            (genPool (drawCoefs c rnd) rnd (nat (ifloor (c 2))) 6 0 (nat (ifloor (c 1))) p))"
proof (cases "adequate (ifloor (c 1)) (ifloor (c 2)) p")
  case False
  then have "\<And>r. generate c rnd p \<noteq> Inr r"
    by (simp add: generate_Inr_iff)
  then obtain e where "generate c rnd p = Inl e"
    by (cases "generate c rnd p") auto
  with False show ?thesis
    by (simp add: FractalGeometry_def)
next
  case True
  let ?E = "foldl trackP extrema0
     (orbitStates (drawCoefs c rnd) rnd (nat (ifloor (c 2))) 6 0 (nat (ifloor (c 1))))"
  let ?p = "genPool (drawCoefs c rnd) rnd (nat (ifloor (c 2))) 6 0 (nat (ifloor (c 1))) p"
  have g: "generate c rnd p = Inr (?E, 6 + 2 * nat (ifloor (c 1)), ?p)"
    using True by (simp add: generate_Inr_iff)
  have "adequateFrom 0 (ifloor (c 1)) (ifloor (c 2)) ?p"
    using True by (simp add: adequate_iff adequateFrom_genPool)
  then show ?thesis
    using True g
      normSubsets_Inr_iff [of 0 "ifloor (c 1)" "nat (ifloor (c 1))" "mkNorm c ?E" "ifloor (c 2)" ?p q]
    by (simp add: FractalGeometry_def)
qed

lemma adequateFrom_0D:
  assumes "adequateFrom 0 numSubsets numPoints p" "s < nat numSubsets"
  shows "s < length p" "\<exists>b. p ! s = Some b \<and> 2 * numPoints \<le> int (length b)"
proof -
  from assms(2) have s: "int s < numSubsets" by simp
  then have "int 0 < numSubsets" by simp
  with assms(1) have "numSubsets \<le> int (length p)"
    unfolding adequateFrom_def by blast
  with s show "s < length p" by simp
  from assms(1) s show "\<exists>b. p ! s = Some b \<and> 2 * numPoints \<le> int (length b)"
    unfolding adequateFrom_def by simp
qed

lemma generate_raw_point:
  assumes "generate c rnd p = Inr (E, k, p')"
    and "s < nat (ifloor (c 1))" and "i < nat (ifloor (c 2))"
  shows "\<exists>b. p' ! s = Some b \<and> 2 * nat (ifloor (c 2)) \<le> length b \<and>
             (b ! (2 * i), b ! (2 * i + 1))
               = spec_orbit (drawCoefs c rnd) (seedOf rnd (6 + 2 * s) (int s)) (Suc i)"
proof -
  let ?K = "drawCoefs c rnd" and ?NP = "nat (ifloor (c 2))" and ?NS = "nat (ifloor (c 1))"
  from assms(1) have ad: "adequateFrom 0 (ifloor (c 1)) (ifloor (c 2)) p"
    and p': "p' = genPool ?K rnd ?NP 6 0 ?NS p"
    by (simp_all add: generate_Inr_iff adequate_iff)
  from adequateFrom_0D [OF ad assms(2)] obtain b
    where s: "s < length p" and b: "p ! s = Some b" "2 * ifloor (c 2) \<le> int (length b)"
    by blast
  from b(2) assms(3) have len: "2 * ?NP \<le> length b" "2 * i + 1 < length b" "2 * i < length b"
    by linarith+
  have "p' ! s = Some (written ?K (seedOf rnd (6 + 2 * s) (int s)) 0 ?NP b)"
    using s b(1) assms(2) by (simp add: p' genPool_nth)
  moreover have "written ?K (seedOf rnd (6 + 2 * s) (int s)) 0 ?NP b ! (2 * i)
      = fst (spec_orbit ?K (seedOf rnd (6 + 2 * s) (int s)) (Suc i))"
    using len assms(3) by (simp add: written_nth)
  moreover have "written ?K (seedOf rnd (6 + 2 * s) (int s)) 0 ?NP b ! (2 * i + 1)
      = snd (spec_orbit ?K (seedOf rnd (6 + 2 * s) (int s)) (Suc i))"
    using len assms(3) by (simp add: written_nth)
  ultimately show ?thesis
    using len(1) by (simp add: written_length)
qed

lemma track_containsZero: "containsZero E \<Longrightarrow> containsZero (track E x y)"
  by (auto simp: track_def containsZero_def Let_def)

lemma track_widened: "widened E (track E x y)"
  by (auto simp: track_def widened_def Let_def)

lemma foldl_trackP_containsZero: "containsZero E \<Longrightarrow> containsZero (foldl trackP E ps)"
  by (induction ps arbitrary: E) (simp_all add: trackP_def track_containsZero)

lemma containsZero_extrema0: "containsZero extrema0"
  by (simp add: containsZero_def extrema0_def)

lemma orbit_prefix:
  assumes "0 < n"
  shows "map (spec_orbit K sd) [0..<n] = sd # map (\<lambda>j. spec_orbit K sd (Suc j)) [0..<n - 1]"
proof -
  from assms obtain m where n: "n = Suc m" by (cases n) auto
  have "[0..<Suc m] = 0 # map Suc [0..<m]"
    by (simp add: upt_conv_Cons map_Suc_upt del: upt_Suc)
  then show ?thesis
    by (simp add: n spec_orbit_0 o_def del: upt_Suc)
qed

lemma generate_tracked:
  assumes "generate c rnd p = Inr (E, k, raw)"
  shows "orbitStates (drawCoefs c rnd) rnd (nat (ifloor (c 2))) 6 0 (nat (ifloor (c 1)))
         = trackedPoints c rnd raw"
proof -
  let ?K = "drawCoefs c rnd" and ?NP = "nat (ifloor (c 2))" and ?NS = "nat (ifloor (c 1))"
  have "map (spec_orbit ?K (seedOf rnd (6 + 2 * s) (0 + int s))) [0..<?NP]
        = (case raw ! s of
             None \<Rightarrow> []
           | Some b \<Rightarrow>
               if ?NP = 0 then []
               else seedOf rnd (6 + 2 * s) (int s) #
                    map (\<lambda>j. (b ! (2 * j), b ! (2 * j + 1))) [0..<?NP - 1])"
    if s: "s \<in> set [0..<?NS]" for s
  proof (cases "?NP = 0")
    case True
    then show ?thesis by (simp split: option.split)
  next
    case False
    then have pos: "0 < ?NP" by simp
    from s have s': "s < ?NS" by simp
    from generate_raw_point [OF assms s', of 0] pos obtain b where b: "raw ! s = Some b"
      by blast
    have "(b ! (2 * j), b ! (2 * j + 1)) = spec_orbit ?K (seedOf rnd (6 + 2 * s) (int s)) (Suc j)"
      if "j < ?NP - 1" for j
    proof -
      from that have "j < ?NP" by simp
      from generate_raw_point [OF assms s' this] b show ?thesis by simp
    qed
    then have "map (\<lambda>j. (b ! (2 * j), b ! (2 * j + 1))) [0..<?NP - 1]
               = map (\<lambda>j. spec_orbit ?K (seedOf rnd (6 + 2 * s) (int s)) (Suc j)) [0..<?NP - 1]"
      by (intro map_cong) simp_all
    with pos b show ?thesis
      by (simp add: orbit_prefix)
  qed
  then show ?thesis
    unfolding orbitStates_def trackedPoints_def by (intro arg_cong [where f = concat] map_cong) simp_all
qed

subsection \<open>What a call leaves in the pool\<close>

lemma sameOutside_refl: "sameOutside NS NP p p"
  by (simp add: sameOutside_def)

lemma sameOutside_trans:
  assumes "sameOutside NS NP p q" "sameOutside NS NP q r"
  shows "sameOutside NS NP p r"
  unfolding sameOutside_def
proof (intro conjI allI impI)
  show "length p = length r"
    using assms by (simp add: sameOutside_def)
next
  fix t
  assume t: "t < length p"
  then have t': "t < length q" using assms(1) by (simp add: sameOutside_def)
  from assms(1) t consider (eq) "p ! t = q ! t"
    | (tl) x y where "t < NS" "p ! t = Some x" "q ! t = Some y" "length x = length y"
        "\<forall>j<length x. 2 * NP \<le> j \<longrightarrow> x ! j = y ! j"
    unfolding sameOutside_def by blast
  then show "p ! t = r ! t \<or>
         (t < NS \<and> (\<exists>x y. p ! t = Some x \<and> r ! t = Some y \<and> length x = length y \<and>
                           (\<forall>j<length x. 2 * NP \<le> j \<longrightarrow> x ! j = y ! j)))"
  proof cases
    case eq
    with assms(2) t' show ?thesis
      unfolding sameOutside_def by auto
  next
    case tl
    from assms(2) t' consider (eq2) "q ! t = r ! t"
      | (tl2) y' z where "q ! t = Some y'" "r ! t = Some z" "length y' = length z"
          "\<forall>j<length y'. 2 * NP \<le> j \<longrightarrow> y' ! j = z ! j"
      unfolding sameOutside_def by blast
    then show ?thesis
    proof cases
      case eq2
      with tl show ?thesis by auto
    next
      case tl2
      with tl have "y' = y" by simp
      with tl tl2 show ?thesis by auto
    qed
  qed
qed

lemma sameOutside_adequate:
  assumes "sameOutside NS NP p q" "adequate numSubsets numPoints p"
  shows "adequate numSubsets numPoints q"
proof -
  have "\<exists>b'. q ! t = Some b' \<and> length b' = length b"
    if "t < length p" "p ! t = Some b" for t b
    using assms(1) that unfolding sameOutside_def by (metis option.inject)
  with assms show ?thesis
    unfolding adequate_iff
    by (intro adequateFrom_same_shape [of p q]) (simp_all add: sameOutside_def)
qed

lemma written_cong:
  assumes "length x = length y" "\<forall>j<length x. 2 * NP \<le> j \<longrightarrow> x ! j = y ! j"
  shows "written K sd 0 NP x = written K sd 0 NP y"
  using assms by (intro nth_equalityI) (auto simp: written_length written_nth)

lemma genPool_cong:
  assumes "sameOutside NS NP p q"
  shows "genPool K rnd NP k 0 NS p = genPool K rnd NP k 0 NS q"
proof (rule nth_equalityI)
  show "length (genPool K rnd NP k 0 NS p) = length (genPool K rnd NP k 0 NS q)"
    using assms by (simp add: genPool_length sameOutside_def)
next
  fix t
  assume "t < length (genPool K rnd NP k 0 NS p)"
  then have t: "t < length p" "t < length q"
    using assms by (simp_all add: genPool_length sameOutside_def)
  from assms t(1) consider (eq) "p ! t = q ! t"
    | (tl) x y where "t < NS" "p ! t = Some x" "q ! t = Some y" "length x = length y"
        "\<forall>j<length x. 2 * NP \<le> j \<longrightarrow> x ! j = y ! j"
    unfolding sameOutside_def by blast
  then show "genPool K rnd NP k 0 NS p ! t = genPool K rnd NP k 0 NS q ! t"
  proof cases
    case eq
    with t show ?thesis by (simp add: genPool_nth)
  next
    case tl
    with t show ?thesis
      by (simp add: genPool_nth written_cong [of x y NP])
  qed
qed

lemma FractalGeometry_frame:
  assumes "FractalGeometry levelId c rnd p = Inr q"
  shows "sameOutside (nat (ifloor (c 1))) (nat (ifloor (c 2))) p q"
proof -
  let ?K = "drawCoefs c rnd" and ?NP = "nat (ifloor (c 2))" and ?NS = "nat (ifloor (c 1))"
  let ?N = "mkNorm c (foldl trackP extrema0 (orbitStates ?K rnd ?NP 6 0 ?NS))"
  from assms have ad: "adequateFrom 0 (ifloor (c 1)) (ifloor (c 2)) p"
    and q: "q = normPool ?N ?NP 0 ?NS (genPool ?K rnd ?NP 6 0 ?NS p)"
    by (simp_all add: FractalGeometry_Inr_iff adequate_iff)
  show ?thesis
    unfolding sameOutside_def
  proof (intro conjI allI impI)
    show "length p = length q"
      by (simp add: q normPool_length genPool_length)
  next
    fix t
    assume t: "t < length p"
    show "p ! t = q ! t \<or>
         (t < ?NS \<and> (\<exists>x y. p ! t = Some x \<and> q ! t = Some y \<and> length x = length y \<and>
                           (\<forall>j<length x. 2 * ?NP \<le> j \<longrightarrow> x ! j = y ! j)))"
    proof (cases "t < ?NS")
      case False
      with t show ?thesis
        by (simp add: q normPool_nth genPool_nth genPool_length)
    next
      case True
      from adequateFrom_0D [OF ad True] obtain b where b: "p ! t = Some b" by blast
      let ?w = "written ?K (seedOf rnd (6 + 2 * t) (int t)) 0 ?NP b"
      have "q ! t = Some (normed ?N 0 ?NP ?w)"
        using t True b by (simp add: q normPool_nth genPool_nth genPool_length)
      moreover have "length (normed ?N 0 ?NP ?w) = length b"
        by (simp add: normed_length written_length)
      moreover have "\<forall>j<length b. 2 * ?NP \<le> j \<longrightarrow> b ! j = normed ?N 0 ?NP ?w ! j"
        by (simp add: normed_nth written_nth written_length)
      ultimately show ?thesis
        using True b by simp
    qed
  qed
qed

lemma FractalGeometry_cong:
  assumes "sameOutside (nat (ifloor (c 1))) (nat (ifloor (c 2))) p1 p2"
    and "FractalGeometry levelId c rnd p1 = Inr q"
  shows "FractalGeometry levelId' c rnd p2 = Inr q"
  using assms sameOutside_adequate [OF assms(1), of "ifloor (c 1)" "ifloor (c 2)"]
    genPool_cong [OF assms(1)]
  by (simp add: FractalGeometry_Inr_iff)

lemma acquire_sizes: "sizes c' = sizes c \<Longrightarrow> acquire c' None = acquire c None"
  by (simp add: acquire_def sizes_def)

lemma poolInv_build:
  assumes "poolInv c lastData" "sizes c' = sizes c" "build levelId c' rnd lastData = Inr q"
  shows "poolInv c (Some q)"
proof -
  from assms(2) have s: "ifloor (c' 1) = ifloor (c 1)" "ifloor (c' 2) = ifloor (c 2)"
    by (simp_all add: sizes_def)
  show ?thesis
  proof (cases lastData)
    case None
    with assms(3) obtain P0 where P0: "acquire c' None = Inr P0"
      "FractalGeometry levelId c' rnd P0 = Inr q"
      by (auto simp: build_def myBuild_def split: sum.splits)
    from P0(2) have "adequate (ifloor (c' 1)) (ifloor (c' 2)) P0"
      using FractalGeometry_Inr_iff by blast
    then have "adequate (ifloor (c 1)) (ifloor (c 2)) P0"
      unfolding s .
    moreover note FractalGeometry_frame [OF P0(2), unfolded s]
    ultimately show ?thesis
      using P0(1) acquire_sizes [OF assms(2)] by (auto simp: poolInv_def)
  next
    case (Some p)
    with assms(1) obtain P0 where P0: "acquire c None = Inr P0"
      "adequate (ifloor (c 1)) (ifloor (c 2)) P0"
      "sameOutside (nat (ifloor (c 1))) (nat (ifloor (c 2))) P0 p"
      by (auto simp: poolInv_def)
    from assms(3) Some have "FractalGeometry levelId c' rnd p = Inr q"
      by (simp add: build_def myBuild_def acquire_def)
    note FractalGeometry_frame [OF this, unfolded s]
    with P0(3) have "sameOutside (nat (ifloor (c 1))) (nat (ifloor (c 2))) P0 q"
      by (rule sameOutside_trans)
    with P0(1,2) show ?thesis
      by (auto simp: poolInv_def)
  qed
qed

lemma poolInv_builds:
  "poolInv c lastData \<Longrightarrow> sameSizes c calls \<Longrightarrow> builds calls lastData = Inr lastData' \<Longrightarrow>
   poolInv c lastData'"
proof (induction calls arbitrary: lastData)
  case Nil
  then show ?case by simp
next
  case (Cons call calls)
  obtain levelId c' rnd where call: "call = (levelId, c', rnd)" by (cases call)
  from Cons.prems(3) obtain q where q: "build levelId c' rnd lastData = Inr q"
    "builds calls (Some q) = Inr lastData'"
    by (auto simp: call split: sum.splits)
  from Cons.prems(2) have s: "sizes c' = sizes c" "sameSizes c calls"
    by (simp_all add: sameSizes_def call)
  from poolInv_build [OF Cons.prems(1) s(1) q(1)] s(2) q(2) show ?case
    by (rule Cons.IH)
qed

lemma build_fresh:
  assumes "poolInv c lastData"
  shows "build levelId c rnd lastData = build levelId' c rnd None"
proof (cases lastData)
  case None
  then show ?thesis
    by (simp add: build_def myBuild_def FractalGeometry_def split: sum.split)
next
  case (Some p)
  with assms obtain P0 where P0: "acquire c None = Inr P0"
    "adequate (ifloor (c 1)) (ifloor (c 2)) P0"
    "sameOutside (nat (ifloor (c 1))) (nat (ifloor (c 2))) P0 p"
    by (auto simp: poolInv_def)
  from P0(2) obtain q where q: "FractalGeometry levelId' c rnd P0 = Inr q"
    by (simp add: FractalGeometry_Inr_iff)
  from FractalGeometry_cong [OF P0(3) q] have "FractalGeometry levelId c rnd p = Inr q" .
  with q P0(1) Some show ?thesis
    by (simp add: build_def myBuild_def acquire_def)
qed

lemma normAt_written:
  assumes "i < NP" "2 * NP \<le> length x" "2 * NP \<le> length y"
  shows "normAt N (written K sd 0 NP x) i = normAt N (written K sd 0 NP y) i"
proof -
  from assms have "2 * i < length x" "2 * i + 1 < length x" "2 * i < length y"
    "2 * i + 1 < length y" "2 * i < 2 * NP" "2 * i + 1 < 2 * NP"
    by linarith+
  then show ?thesis
    by (simp add: normAt_def written_nth)
qed

lemma normed_written_take:
  assumes "2 * NP \<le> length x" "2 * NP \<le> length y"
  shows "take (2 * NP) (normed N 0 NP (written K sd 0 NP x))
         = take (2 * NP) (normed N 0 NP (written K sd 0 NP y))"
proof (rule nth_equalityI)
  show "length (take (2 * NP) (normed N 0 NP (written K sd 0 NP x)))
        = length (take (2 * NP) (normed N 0 NP (written K sd 0 NP y)))"
    using assms by (simp add: normed_length written_length)
next
  fix j
  assume "j < length (take (2 * NP) (normed N 0 NP (written K sd 0 NP x)))"
  then have j: "j < 2 * NP" "j < length x" "j < length y"
    using assms by (simp_all add: normed_length written_length)
  then have "j div 2 < NP" by linarith
  from normAt_written [OF this assms, of N K sd] j
  show "take (2 * NP) (normed N 0 NP (written K sd 0 NP x)) ! j
        = take (2 * NP) (normed N 0 NP (written K sd 0 NP y)) ! j"
    by (simp add: normed_nth written_length)
qed

lemma FractalGeometry_written_region:
  assumes "adequate (ifloor (c 1)) (ifloor (c 2)) p1" "adequate (ifloor (c 1)) (ifloor (c 2)) p2"
    and "s < nat (ifloor (c 1))"
  shows "\<exists>q1 q2 b1 b2. FractalGeometry levelId1 c rnd p1 = Inr q1 \<and>
           FractalGeometry levelId2 c rnd p2 = Inr q2 \<and>
           q1 ! s = Some b1 \<and> q2 ! s = Some b2 \<and>
           take (2 * nat (ifloor (c 2))) b1 = take (2 * nat (ifloor (c 2))) b2"
proof -
  let ?K = "drawCoefs c rnd" and ?NP = "nat (ifloor (c 2))" and ?NS = "nat (ifloor (c 1))"
  let ?N = "mkNorm c (foldl trackP extrema0 (orbitStates ?K rnd ?NP 6 0 ?NS))"
  let ?q1 = "normPool ?N ?NP 0 ?NS (genPool ?K rnd ?NP 6 0 ?NS p1)"
  let ?q2 = "normPool ?N ?NP 0 ?NS (genPool ?K rnd ?NP 6 0 ?NS p2)"
  let ?sd = "seedOf rnd (6 + 2 * s) (int s)"
  have q: "FractalGeometry levelId1 c rnd p1 = Inr ?q1" "FractalGeometry levelId2 c rnd p2 = Inr ?q2"
    using assms(1,2) by (simp_all add: FractalGeometry_Inr_iff)
  from assms have ad: "adequateFrom 0 (ifloor (c 1)) (ifloor (c 2)) p1"
    "adequateFrom 0 (ifloor (c 1)) (ifloor (c 2)) p2"
    by (simp_all add: adequate_iff)
  from adequateFrom_0D [OF ad(1) assms(3)] obtain x
    where x: "s < length p1" "p1 ! s = Some x" "2 * ifloor (c 2) \<le> int (length x)" by blast
  from adequateFrom_0D [OF ad(2) assms(3)] obtain y
    where y: "s < length p2" "p2 ! s = Some y" "2 * ifloor (c 2) \<le> int (length y)" by blast
  have 1: "?q1 ! s = Some (normed ?N 0 ?NP (written ?K ?sd 0 ?NP x))"
    using x assms(3) by (simp add: normPool_nth genPool_nth genPool_length)
  have 2: "?q2 ! s = Some (normed ?N 0 ?NP (written ?K ?sd 0 ?NP y))"
    using y assms(3) by (simp add: normPool_nth genPool_nth genPool_length)
  from x(3) y(3) have "2 * ?NP \<le> length x" "2 * ?NP \<le> length y" by linarith+
  from normed_written_take [OF this] q 1 2 show ?thesis
    by blast
qed

lemma builds_then_build:
  assumes "sameSizes c calls1" "builds calls1 None = Inr lastData1"
    and "sameSizes c calls2" "builds calls2 None = Inr lastData2"
  shows "build levelId1 c rnd lastData1 = build levelId2 c rnd lastData2"
proof -
  have 0: "poolInv c None" by (simp add: poolInv_def)
  from poolInv_builds [OF 0 assms(1,2)] have "poolInv c lastData1" .
  then have 1: "build levelId1 c rnd lastData1 = build 0 c rnd None" by (rule build_fresh)
  from poolInv_builds [OF 0 assms(3,4)] have "poolInv c lastData2" .
  then have 2: "build levelId2 c rnd lastData2 = build 0 c rnd None" by (rule build_fresh)
  from 1 2 show ?thesis by simp
qed

subsection \<open>Zero counts, and the points that are in range\<close>

lemma FractalGeometry_zero_counts:
  assumes "adequate (ifloor (c 1)) (ifloor (c 2)) p"
    and "ifloor (c 1) \<le> 0 \<or> ifloor (c 2) \<le> 0"
  shows "FractalGeometry levelId c rnd p = Inr p"
proof -
  let ?K = "drawCoefs c rnd" and ?NP = "nat (ifloor (c 2))" and ?NS = "nat (ifloor (c 1))"
  let ?N = "mkNorm c (foldl trackP extrema0 (orbitStates ?K rnd ?NP 6 0 ?NS))"
  have "normPool ?N ?NP 0 ?NS (genPool ?K rnd ?NP 6 0 ?NS p) = p"
  proof (cases "ifloor (c 1) \<le> 0")
    case True
    then show ?thesis by (simp add: genPool_empty normPool_empty)
  next
    case False
    with assms(2) have np: "?NP = 0" by simp
    show ?thesis
    proof (rule nth_equalityI)
      show "length (normPool ?N ?NP 0 ?NS (genPool ?K rnd ?NP 6 0 ?NS p)) = length p"
        by (simp add: normPool_length genPool_length)
    next
      fix t
      assume "t < length (normPool ?N ?NP 0 ?NS (genPool ?K rnd ?NP 6 0 ?NS p))"
      then have "t < length p" by (simp add: normPool_length genPool_length)
      then show "normPool ?N ?NP 0 ?NS (genPool ?K rnd ?NP 6 0 ?NS p) ! t = p ! t"
        by (cases "p ! t")
          (simp_all add: normPool_nth genPool_nth genPool_length np written_empty normed_empty)
    qed
  qed
  with assms(1) show ?thesis
    by (simp add: FractalGeometry_Inr_iff)
qed

lemma track_bounds:
  assumes "containsZero E"
  shows "xMin (track E x y) \<le> x \<and> x \<le> xMax (track E x y) \<and>
         yMin (track E x y) \<le> y \<and> y \<le> yMax (track E x y)"
  using assms by (auto simp: track_def containsZero_def Let_def)

lemma widened_trans: "widened E E' \<Longrightarrow> widened E' E'' \<Longrightarrow> widened E E''"
  by (auto simp: widened_def)

lemma foldl_trackP_widened: "widened E (foldl trackP E ps)"
proof (induction ps arbitrary: E)
  case Nil
  then show ?case by (simp add: widened_def)
next
  case (Cons a ps)
  have "widened E (trackP E a)" by (simp add: trackP_def track_widened)
  with Cons [of "trackP E a"] show ?case
    by (auto intro: widened_trans)
qed

lemma foldl_trackP_bounds:
  assumes "containsZero E" "pt \<in> set ps"
  shows "xMin (foldl trackP E ps) \<le> fst pt \<and> fst pt \<le> xMax (foldl trackP E ps) \<and>
         yMin (foldl trackP E ps) \<le> snd pt \<and> snd pt \<le> yMax (foldl trackP E ps)"
  using assms
proof (induction ps arbitrary: E)
  case Nil
  then show ?case by simp
next
  case (Cons a ps)
  have cz: "containsZero (trackP E a)"
    using Cons.prems(1) by (simp add: trackP_def track_containsZero)
  show ?case
  proof (cases "pt = a")
    case True
    have w: "widened (trackP E a) (foldl trackP (trackP E a) ps)"
      by (rule foldl_trackP_widened)
    have "xMin (trackP E a) \<le> fst a \<and> fst a \<le> xMax (trackP E a) \<and>
          yMin (trackP E a) \<le> snd a \<and> snd a \<le> yMax (trackP E a)"
      unfolding trackP_def using Cons.prems(1) by (rule track_bounds)
    with w True show ?thesis
      by (auto simp: widened_def)
  next
    case False
    with Cons.prems(2) have "pt \<in> set ps" by simp
    with Cons.IH [OF cz] show ?thesis by simp
  qed
qed

lemma rescale_in_range:
  fixes S :: real
  assumes "0 \<le> S" "lo \<le> v" "v \<le> hi" "lo < hi"
  shows "\<bar>2 * S / (hi - lo) * (v - lo) - S\<bar> \<le> S"
proof -
  let ?r = "(v - lo) / (hi - lo)"
  have r: "0 \<le> ?r" "?r \<le> 1" using assms by simp_all
  have e: "2 * S / (hi - lo) * (v - lo) = 2 * S * ?r" by simp
  have "0 \<le> 2 * S * ?r" using assms(1) r(1) by (intro mult_nonneg_nonneg) simp_all
  moreover have "2 * S * ?r \<le> 2 * S * 1"
    using assms(1) r(2) by (intro mult_left_mono) simp_all
  ultimately have "\<bar>2 * S * ?r - S\<bar> \<le> S"
    by (simp add: abs_le_iff)
  then show ?thesis
    unfolding e .
qed

lemma orbit_in_orbitStates:
  assumes "s < NS" "n < NP"
  shows "spec_orbit K (seedOf rnd (6 + 2 * s) (int s)) n \<in> set (orbitStates K rnd NP 6 0 NS)"
proof -
  have "spec_orbit K (seedOf rnd (6 + 2 * s) (int s)) n
        \<in> spec_orbit K (seedOf rnd (6 + 2 * s) (int s)) ` {0..<NP}"
    using assms(2) by simp
  with assms(1) show ?thesis
    unfolding orbitStates_def by (simp add: Bex_def) (rule exI [of _ s], simp)
qed

lemma FractalGeometry_tracked_in_range:
  assumes "FractalGeometry levelId c rnd p = Inr q"
    and "generate c rnd p = Inr (E, k, raw)"
    and "s < nat (ifloor (c 1))" "Suc i < nat (ifloor (c 2))"
    and "0 \<le> c 3" "c 5 \<le> 0"
    and "xMin E < xMax E" "yMin E < yMax E"
  shows "\<exists>b. q ! s = Some b \<and> \<bar>b ! (2 * i)\<bar> \<le> c 3 \<and> \<bar>b ! (2 * i + 1)\<bar> \<le> c 3"
proof -
  let ?K = "drawCoefs c rnd" and ?NP = "nat (ifloor (c 2))" and ?NS = "nat (ifloor (c 1))"
  let ?sd = "seedOf rnd (6 + 2 * s) (int s)"
  let ?N = "mkNorm c E"
  from assms(2) have E: "E = foldl trackP extrema0 (orbitStates ?K rnd ?NP 6 0 ?NS)"
    and ad: "adequateFrom 0 (ifloor (c 1)) (ifloor (c 2)) p"
    by (simp_all add: generate_Inr_iff adequate_iff)
  from assms(1) have q: "q = normPool ?N ?NP 0 ?NS (genPool ?K rnd ?NP 6 0 ?NS p)"
    by (simp add: FractalGeometry_Inr_iff E)
  from adequateFrom_0D [OF ad assms(3)] obtain b0
    where b0: "s < length p" "p ! s = Some b0" "2 * ifloor (c 2) \<le> int (length b0)" by blast
  let ?w = "written ?K ?sd 0 ?NP b0"
  from b0(3) assms(4) have len: "2 * i < length b0" "2 * i + 1 < length b0"
    "2 * i < 2 * ?NP" "2 * i + 1 < 2 * ?NP"
    by linarith+
  have qs: "q ! s = Some (normed ?N 0 ?NP ?w)"
    using b0 assms(3) by (simp add: q normPool_nth genPool_nth genPool_length)
  have w: "?w ! (2 * i) = fst (spec_orbit ?K ?sd (Suc i))"
    "?w ! (2 * i + 1) = snd (spec_orbit ?K ?sd (Suc i))"
    using len by (simp_all add: written_nth)
  have "spec_orbit ?K ?sd (Suc i) \<in> set (orbitStates ?K rnd ?NP 6 0 ?NS)"
    using assms(3,4) by (rule orbit_in_orbitStates)
  from foldl_trackP_bounds [OF containsZero_extrema0 this]
  have bd: "xMin E \<le> ?w ! (2 * i)" "?w ! (2 * i) \<le> xMax E"
    "yMin E \<le> ?w ! (2 * i + 1)" "?w ! (2 * i + 1) \<le> yMax E"
    unfolding E [symmetric] w by simp_all
  have nowarp: "normAt ?N ?w i
      = (2 * c 3 / (xMax E - xMin E) * (?w ! (2 * i) - xMin E) - c 3,
         2 * c 3 / (yMax E - yMin E) * (?w ! (2 * i + 1) - yMin E) - c 3)"
    using assms(6) by (simp add: normAt_def warp.simps mkNorm_def)
  have n0: "normed ?N 0 ?NP ?w ! (2 * i) = fst (normAt ?N ?w i)"
    using len by (simp add: normed_nth written_length)
  have n1: "normed ?N 0 ?NP ?w ! (2 * i + 1) = snd (normAt ?N ?w i)"
    using len by (simp add: normed_nth written_length)
  have "\<bar>normed ?N 0 ?NP ?w ! (2 * i)\<bar> \<le> c 3"
    unfolding n0 nowarp fst_conv
    using assms(5) bd(1,2) assms(7) by (rule rescale_in_range)
  moreover have "\<bar>normed ?N 0 ?NP ?w ! (2 * i + 1)\<bar> \<le> c 3"
    unfolding n1 nowarp snd_conv
    using assms(5) bd(3,4) assms(8) by (rule rescale_in_range)
  ultimately show ?thesis
    using qs by simp
qed

subsection \<open>The coefficients\<close>




subsection \<open>The seeds\<close>

lemma seed_below_100: "0 \<le> s \<Longrightarrow> s < 100 \<Longrightarrow> seed s u = 0"
  by (simp add: seed_def i32_div_def)

lemma seed_nonneg: "0 \<le> s \<Longrightarrow> seed s u = real_of_int (s div 100) * (0.5 - u)"
  by (cases "s = 0") (simp_all add: seed_def i32_div_def)

text \<open>
  C3, evaluated at subset 1 with the draw 0. The claim gives the seed \<open>1 / 100 * 0.5\<close>;
  the worker divides two \<^verbatim>\<open>i32\<close>, so the quotient is 0 and the seed is 0, as for every
  subset below 100.
\<close>

theorem seed_subset_1:
  "seed 1 0 = 0 \<and> seed 1 0 \<noteq> 1 / 100 * (0.5 - 0) \<and> seed 99 (1 / 4) = 0"
  by (simp add: seed_def i32_div_def)

subsection \<open>The pool\<close>

text \<open>
  C1, evaluated on the first call with the settings \<open>[2, 2, 3]\<close>: two subsets of three
  points. The claim gives a pool of two buffers of length six. The worker sizes the pool
  from the fields 0 and 1: two buffers of length four, each entry 123, and the generator
  then leaves the first of them at its third point.
\<close>

theorem acquire_reads_fields_0_and_1:
  "acquire (mkSettings [2, 2, 3]) None
     = Inr [Some [123, 123, 123, 123], Some [123, 123, 123, 123]]
   \<and> build levelId (mkSettings [2, 2, 3]) rnd None = Inl IndexOutOfBounds"
  by (simp add: eval_defs)

text \<open>
  C2, evaluated on three calls. The first, on the empty state with three subsets, leaves a
  pool of three buffers of length six. With the counts then changed to two subsets, the
  second call returns these three buffers of length six (the claim: two of length four).
  With the counts changed to four subsets instead, the call aborts (the claim: four new
  buffers).
\<close>

theorem build_keeps_old_pool:
  "build 0 settings332 zeroDraws None
     = Inr (replicate 3 (Some [100, 100, 2100, 80, 123, 123]))
   \<and> build 0 settings222 zeroDraws (Some (replicate 3 (Some [100, 100, 2100, 80, 123, 123])))
     = Inr (replicate 3 (Some [100, 100, 2100, 80, 123, 123]))
   \<and> build 0 settings442 zeroDraws (Some (replicate 3 (Some [100, 100, 2100, 80, 123, 123])))
     = Inl IndexOutOfBounds"
  by (simp add: eval_defs settings332_def settings222_def settings442_def zeroDraws_def)

text \<open>
  C8, evaluated with no points per subset. On the first call with the settings
  \<open>[0, 3, 0]\<close> the pool is sized from field 0 and has no buffer, so the read of the first
  subset's buffer aborts the call. And with the settings \<open>[3, 3, 0]\<close> on the pool of two
  buffers that a call for two subsets left, the read of the third buffer aborts it. Where
  the pool has its \<open>numSubsets\<close> buffers the call returns it untouched
  (\<open>FractalGeometry_zero_counts\<close>).
\<close>

theorem build_zero_points_traps:
  "build levelId (mkSettings [0, 3, 0]) rnd None = Inl IndexOutOfBounds
   \<and> build 0 settings222 zeroDraws None
       = Inr [Some [100, 100, 2100, 80], Some [100, 100, 2100, 80]]
   \<and> build levelId (mkSettings [3, 3, 0]) rnd
        (Some [Some [100, 100, 2100, 80], Some [100, 100, 2100, 80]])
       = Inl IndexOutOfBounds"
  by (simp add: eval_defs settings222_def zeroDraws_def)

subsection \<open>The range of the output\<close>

text \<open>
  C4, evaluated with two subsets of two points, scale factor 100 and no warp. The extrema
  after the first pass are \<open>xMin = 0\<close>, \<open>xMax = 1\<close>, \<open>yMin = 0\<close>, \<open>yMax = 10\<close>: the second point
  of each subset, \<open>(11, 9)\<close>, was written by the last iteration and never compared with
  them. Its \<open>x\<close> is rescaled to 2100, far outside \<open>[-100, 100]\<close>. Every point but the last
  of its subset is in range (\<open>FractalGeometry_tracked_in_range\<close>).
\<close>

theorem build_last_point_out_of_range:
  "generate settings222 zeroDraws (replicate 2 (Some [123, 123, 123, 123]))
     = Inr (\<lparr>xMin = 0, xMax = 1, yMin = 0, yMax = 10\<rparr>, 10,
            [Some [1, 10, 11, 9], Some [1, 10, 11, 9]])
   \<and> build 0 settings222 zeroDraws None
     = Inr [Some [100, 100, 2100, 80], Some [100, 100, 2100, 80]]"
  by (simp add: eval_defs settings222_def zeroDraws_def)

subsection \<open>One choice for the whole call\<close>

text \<open>
  C5. When the first pass returns, it has made \<open>6 + 2 * numSubsets\<close> draws: five for the
  coefficients, the sixth for \<open>choice\<close>, and two for the seed of each subset. The pair at
  the offsets \<open>2 * i\<close> and \<open>2 * i + 1\<close> of the buffer of subset \<open>s\<close> is the state after
  \<open>i + 1\<close> steps of the map of the specification from the seed of \<open>s\<close>, every step
  taking \<open>z\<close> from the branch that this one \<open>choice\<close> selects.
\<close>

theorem generate_one_choice:
  assumes "generate c rnd p = Inr (E, k, p')"
    and "s < nat (ifloor (c 1))" and "i < nat (ifloor (c 2))"
  shows "choice (drawCoefs c rnd) = rnd 5 \<and> k = 6 + 2 * nat (ifloor (c 1)) \<and>
         (\<exists>b. p' ! s = Some b \<and>
              (b ! (2 * i), b ! (2 * i + 1))
                = spec_orbit (drawCoefs c rnd) (seedOf rnd (6 + 2 * s) (int s)) (Suc i))"
proof -
  from assms(1) have "k = 6 + 2 * nat (ifloor (c 1))"
    by (simp add: generate_Inr_iff)
  moreover have "choice (drawCoefs c rnd) = rnd 5"
    by (simp add: drawCoefs_def)
  ultimately show ?thesis
    using generate_raw_point [OF assms] by blast
qed

theorem generate_one_choice_witness:
  "generate settings222 zeroDraws (replicate 2 (Some [123, 123, 123, 123]))
     = Inr (\<lparr>xMin = 0, xMax = 1, yMin = 0, yMax = 10\<rparr>, 10,
            [Some [1, 10, 11, 9], Some [1, 10, 11, 9]])
   \<and> (1::nat) < nat (ifloor (settings222 1)) \<and> (1::nat) < nat (ifloor (settings222 2))
   \<and> choice (drawCoefs settings222 zeroDraws) = zeroDraws 5
   \<and> spec_orbit (drawCoefs settings222 zeroDraws) (seedOf zeroDraws 8 1) (Suc 1) = (11, 9)"
proof -
  have g: "generate settings222 zeroDraws (replicate 2 (Some [123, 123, 123, 123]))
     = Inr (\<lparr>xMin = 0, xMax = 1, yMin = 0, yMax = 10\<rparr>, 10,
            [Some [1, 10, 11, 9], Some [1, 10, 11, 9]])"
    by (simp add: eval_defs settings222_def zeroDraws_def)
  have s: "(1::nat) < nat (ifloor (settings222 1))" "(1::nat) < nat (ifloor (settings222 2))"
    by (simp_all add: settings222_def mkSettings_def ifloor_def)
  from generate_one_choice [OF g s] s g show ?thesis
    by simp
qed

subsection \<open>Determinism\<close>

text \<open>
  C7. Take two calls of \<^verbatim>\<open>build\<close> with the same settings \<open>c\<close> and the same draws, each
  after any sequence of returning calls (other settings, other draws) that kept the three
  size fields of \<open>c\<close>. They return the same pool, or abort alike: the result does not
  depend on the history or on what it left in the buffers. And on any two pools that are
  large enough, whatever their shapes and contents, \<^verbatim>\<open>FractalGeometry\<close> returns, and the
  \<open>2 * numPoints\<close> coordinates of every subset are the same in both results.
\<close>

theorem build_deterministic:
  "(sameSizes c calls1 \<and> builds calls1 None = Inr lastData1 \<and>
    sameSizes c calls2 \<and> builds calls2 None = Inr lastData2 \<longrightarrow>
      build levelId1 c rnd lastData1 = build levelId2 c rnd lastData2) \<and>
   (adequate (ifloor (c 1)) (ifloor (c 2)) p1 \<and> adequate (ifloor (c 1)) (ifloor (c 2)) p2 \<and>
    s < nat (ifloor (c 1)) \<longrightarrow>
      (\<exists>q1 q2 b1 b2. FractalGeometry levelId1 c rnd p1 = Inr q1 \<and>
         FractalGeometry levelId2 c rnd p2 = Inr q2 \<and>
         q1 ! s = Some b1 \<and> q2 ! s = Some b2 \<and>
         take (2 * nat (ifloor (c 2))) b1 = take (2 * nat (ifloor (c 2))) b2))"
  using builds_then_build [of c calls1 lastData1 calls2 lastData2 levelId1 rnd levelId2]
    FractalGeometry_written_region [of c p1 p2 s levelId1 rnd levelId2]
  by blast

theorem build_deterministic_witness:
  "sameSizes settings222 []
   \<and> builds [] None = Inr None
   \<and> sameSizes settings222 [(7, settings222b, zeroDraws)]
   \<and> builds [(7, settings222b, zeroDraws)] None
       = Inr (Some [Some [50, 50, 250, 0], Some [50, 50, 250, 0]])
   \<and> build 1 settings222 zeroDraws None
       = build 2 settings222 zeroDraws (Some [Some [50, 50, 250, 0], Some [50, 50, 250, 0]])
   \<and> adequate (ifloor (settings222 1)) (ifloor (settings222 2))
        [Some [50, 50, 250, 0], Some [50, 50, 250, 0]]
   \<and> adequate (ifloor (settings222 1)) (ifloor (settings222 2))
        [Some [1, 2, 3, 4, 5], Some [0, 0, 0, 0], None]
   \<and> (1::nat) < nat (ifloor (settings222 1))
   \<and> (\<exists>q1 q2 b1 b2.
         FractalGeometry 1 settings222 zeroDraws [Some [50, 50, 250, 0], Some [50, 50, 250, 0]]
           = Inr q1 \<and>
         FractalGeometry 2 settings222 zeroDraws [Some [1, 2, 3, 4, 5], Some [0, 0, 0, 0], None]
           = Inr q2 \<and>
         q1 ! 1 = Some b1 \<and> q2 ! 1 = Some b2 \<and>
         take (2 * nat (ifloor (settings222 2))) b1 = take (2 * nat (ifloor (settings222 2))) b2)"
proof -
  have 1: "sameSizes settings222 []"
    by (simp add: sameSizes_def)
  have 2: "builds [] None = Inr None"
    by simp
  have 3: "sameSizes settings222 [(7, settings222b, zeroDraws)]"
    by (simp add: sameSizes_def sizes_def settings222_def settings222b_def mkSettings_def)
  have 4: "builds [(7, settings222b, zeroDraws)] None
       = Inr (Some [Some [50, 50, 250, 0], Some [50, 50, 250, 0]])"
    by (simp add: eval_defs settings222b_def zeroDraws_def)
  have 5: "adequate (ifloor (settings222 1)) (ifloor (settings222 2))
        [Some [50, 50, 250, 0], Some [50, 50, 250, 0]]"
    by (simp add: adequate_def settings222_def mkSettings_def ifloor_def eval_nat_numeral)
  have 6: "adequate (ifloor (settings222 1)) (ifloor (settings222 2))
        [Some [1, 2, 3, 4, 5], Some [0, 0, 0, 0], None]"
    by (simp add: adequate_def settings222_def mkSettings_def ifloor_def eval_nat_numeral)
  have 7: "(1::nat) < nat (ifloor (settings222 1))"
    by (simp add: settings222_def mkSettings_def ifloor_def)
  note w = build_deterministic [of settings222 "[]" None "[(7, settings222b, zeroDraws)]"
      "Some [Some [50, 50, 250, 0], Some [50, 50, 250, 0]]" 1 zeroDraws 2
      "[Some [50, 50, 250, 0], Some [50, 50, 250, 0]]"
      "[Some [1, 2, 3, 4, 5], Some [0, 0, 0, 0], None]" 1]
  from w 1 2 3 4 have 8: "build 1 settings222 zeroDraws None
       = build 2 settings222 zeroDraws (Some [Some [50, 50, 250, 0], Some [50, 50, 250, 0]])"
    by blast
  from w 5 6 7 have 9: "\<exists>q1 q2 b1 b2.
         FractalGeometry 1 settings222 zeroDraws [Some [50, 50, 250, 0], Some [50, 50, 250, 0]]
           = Inr q1 \<and>
         FractalGeometry 2 settings222 zeroDraws [Some [1, 2, 3, 4, 5], Some [0, 0, 0, 0], None]
           = Inr q2 \<and>
         q1 ! 1 = Some b1 \<and> q2 ! 1 = Some b2 \<and>
         take (2 * nat (ifloor (settings222 2))) b1 = take (2 * nat (ifloor (settings222 2))) b2"
    by blast
  show ?thesis
    by (intro conjI) (fact 1 2 3 4 5 6 7 8 9)+
qed

subsection \<open>Array accesses\<close>

text \<open>
  C9. If the pool has at least \<open>ifloor (c 1)\<close> buffers and each of these has at least
  \<open>2 * ifloor (c 2)\<close> entries, \<^verbatim>\<open>FractalGeometry\<close> returns: no access of its two passes is
  out of bounds. The allocation does not establish this: for the settings \<open>[2, 2, 3]\<close> it
  yields two buffers of length four where length six is needed.
\<close>

theorem FractalGeometry_in_bounds:
  assumes "adequate (ifloor (c 1)) (ifloor (c 2)) p"
  shows "(\<exists>q. FractalGeometry levelId c rnd p = Inr q)
         \<and> acquire (mkSettings [2, 2, 3]) None
             = Inr [Some [123, 123, 123, 123], Some [123, 123, 123, 123]]
         \<and> \<not> adequate (ifloor (mkSettings [2, 2, 3] 1)) (ifloor (mkSettings [2, 2, 3] 2))
               [Some [123, 123, 123, 123], Some [123, 123, 123, 123]]"
proof (intro conjI)
  show "\<exists>q. FractalGeometry levelId c rnd p = Inr q"
    using assms by (simp add: FractalGeometry_Inr_iff)
  show "acquire (mkSettings [2, 2, 3]) None
          = Inr [Some [123, 123, 123, 123], Some [123, 123, 123, 123]]"
    by (simp add: eval_defs)
  show "\<not> adequate (ifloor (mkSettings [2, 2, 3] 1)) (ifloor (mkSettings [2, 2, 3] 2))
               [Some [123, 123, 123, 123], Some [123, 123, 123, 123]]"
    by (simp add: adequate_def mkSettings_def ifloor_def eval_nat_numeral)
qed

theorem FractalGeometry_in_bounds_witness:
  "adequate (ifloor (settings222 1)) (ifloor (settings222 2))
     (replicate 2 (Some [123, 123, 123, 123]))
   \<and> (\<exists>q. FractalGeometry 0 settings222 zeroDraws (replicate 2 (Some [123, 123, 123, 123]))
            = Inr q)"
proof -
  have a: "adequate (ifloor (settings222 1)) (ifloor (settings222 2))
     (replicate 2 (Some [123, 123, 123, 123]))"
    by (simp add: adequate_def settings222_def mkSettings_def ifloor_def eval_nat_numeral)
  from FractalGeometry_in_bounds [OF a, of 0 zeroDraws] a show ?thesis
    by blast
qed

subsection \<open>The extrema\<close>

text \<open>
  C10. The extrema start at 0 on all four sides and so enclose 0; one iteration replaces
  them by \<open>track E x y\<close> for the state \<open>(x, y)\<close> it starts from, which keeps 0 enclosed and
  only widens; so they enclose 0 at every step and when the first pass returns. They are
  then the fold of \<open>track\<close> over \<open>trackedPoints\<close>: per subset the seed and the points
  written by all iterations but the last one.
\<close>

theorem extrema_contain_zero:
  "containsZero extrema0 \<and>
   (containsZero E \<longrightarrow> containsZero (track E x y)) \<and>
   widened E (track E x y) \<and>
   (genPoint K i (x, y, E, sets) = Inr (x', y', E', sets') \<longrightarrow> E' = track E x y) \<and>
   (generate c rnd p = Inr (Ef, k, raw) \<longrightarrow>
      containsZero Ef \<and> Ef = foldl trackP extrema0 (trackedPoints c rnd raw))"
proof (intro conjI impI)
  show "containsZero extrema0" by (rule containsZero_extrema0)
  show "widened E (track E x y)" by (rule track_widened)
next
  assume "containsZero E"
  then show "containsZero (track E x y)" by (rule track_containsZero)
next
  assume "genPoint K i (x, y, E, sets) = Inr (x', y', E', sets')"
  then show "E' = track E x y"
    by (simp add: genPoint_eq split: if_splits)
next
  assume g: "generate c rnd p = Inr (Ef, k, raw)"
  then have "Ef = foldl trackP extrema0
      (orbitStates (drawCoefs c rnd) rnd (nat (ifloor (c 2))) 6 0 (nat (ifloor (c 1))))"
    by (simp add: generate_Inr_iff)
  with generate_tracked [OF g] show Ef: "Ef = foldl trackP extrema0 (trackedPoints c rnd raw)"
    by simp
  show "containsZero Ef"
    unfolding Ef by (intro foldl_trackP_containsZero containsZero_extrema0)
qed

theorem extrema_contain_zero_witness:
  "generate settings222 zeroDraws (replicate 2 (Some [123, 123, 123, 123]))
     = Inr (\<lparr>xMin = 0, xMax = 1, yMin = 0, yMax = 10\<rparr>, 10,
            [Some [1, 10, 11, 9], Some [1, 10, 11, 9]])
   \<and> trackedPoints settings222 zeroDraws [Some [1, 10, 11, 9], Some [1, 10, 11, 9]]
     = [(0, 0), (1, 10), (0, 0), (1, 10)]
   \<and> \<lparr>xMin = 0, xMax = 1, yMin = 0, yMax = 10\<rparr>
     = foldl trackP extrema0 [(0, 0), (1, 10), (0, 0), (1, 10)]
   \<and> containsZero \<lparr>xMin = 0, xMax = 1, yMin = 0, yMax = 10\<rparr>
   \<and> containsZero extrema0
   \<and> genPoint (drawCoefs settings222 zeroDraws) 1 (1, 10, extrema0, [1, 10, 123, 123])
     = Inr (11, 9, \<lparr>xMin = 0, xMax = 1, yMin = 0, yMax = 10\<rparr>, [1, 10, 11, 9])
   \<and> \<lparr>xMin = 0, xMax = 1, yMin = 0, yMax = 10\<rparr> = track extrema0 1 10
   \<and> containsZero (track extrema0 1 10)
   \<and> widened extrema0 (track extrema0 1 10)"
proof -
  have g: "generate settings222 zeroDraws (replicate 2 (Some [123, 123, 123, 123]))
     = Inr (\<lparr>xMin = 0, xMax = 1, yMin = 0, yMax = 10\<rparr>, 10,
            [Some [1, 10, 11, 9], Some [1, 10, 11, 9]])"
    by (simp add: eval_defs settings222_def zeroDraws_def)
  have t: "trackedPoints settings222 zeroDraws [Some [1, 10, 11, 9], Some [1, 10, 11, 9]]
     = [(0, 0), (1, 10), (0, 0), (1, 10)]"
    by (simp add: trackedPoints_def seedOf_def seed_def i32_div_def settings222_def
        mkSettings_def ifloor_def zeroDraws_def eval_nat_numeral)
  have gp: "genPoint (drawCoefs settings222 zeroDraws) 1 (1, 10, extrema0, [1, 10, 123, 123])
     = Inr (11, 9, \<lparr>xMin = 0, xMax = 1, yMin = 0, yMax = 10\<rparr>, [1, 10, 11, 9])"
    by (simp add: eval_defs settings222_def zeroDraws_def)
  note w = extrema_contain_zero [of extrema0 1 10 "drawCoefs settings222 zeroDraws" 1
      "[1, 10, 123, 123]" 11 9 "\<lparr>xMin = 0, xMax = 1, yMin = 0, yMax = 10\<rparr>"
      "[1, 10, 11, 9]" settings222 zeroDraws "replicate 2 (Some [123, 123, 123, 123])"
      "\<lparr>xMin = 0, xMax = 1, yMin = 0, yMax = 10\<rparr>" 10
      "[Some [1, 10, 11, 9], Some [1, 10, 11, 9]]"]
  from w g have 1: "containsZero \<lparr>xMin = 0, xMax = 1, yMin = 0, yMax = 10\<rparr>"
    and 2: "\<lparr>xMin = 0, xMax = 1, yMin = 0, yMax = 10\<rparr>
       = foldl trackP extrema0
           (trackedPoints settings222 zeroDraws [Some [1, 10, 11, 9], Some [1, 10, 11, 9]])"
    by blast+
  from w have 3: "containsZero extrema0" and 4: "containsZero (track extrema0 1 10)"
    and 5: "widened extrema0 (track extrema0 1 10)"
    by blast+
  note 6 = 2 [unfolded t]
  from w gp have 7: "\<lparr>xMin = 0, xMax = 1, yMin = 0, yMax = 10\<rparr> = track extrema0 1 10"
    by blast
  show ?thesis
    by (intro conjI) (fact g t gp 1 3 4 5 6 7)+
qed

end
